theory Spec2Isabelle
  imports Main "HOL-Library.Word"
begin

unbundle bit_operations_syntax

section \<open>The IPCF character device driver (\<^verbatim>\<open>ipcf/ipc-chardev.c\<close>)\<close>

text \<open>
  The driver keeps, for every IPCF channel, a round pool of \<^verbatim>\<open>IPC_QUEUE_SIZE\<close> buffers of
  \<^verbatim>\<open>IPCF_BUF_LEN\<close> bytes. The receive callback of the shared-memory transport stores an
  incoming message in the next free buffer; \<^verbatim>\<open>read\<close> on the character device hands the
  oldest unprocessed buffer to user space; \<^verbatim>\<open>write\<close> sends a message to the remote core.

  Conventions of the embedding:
  \<^item> \<^verbatim>\<open>uint8_t\<close> is \<open>8 word\<close>, \<^verbatim>\<open>uint32_t\<close> is \<open>32 word\<close> (arithmetic wraps as in C);
    \<^verbatim>\<open>size_t\<close> values are natural numbers, no computation of the driver on them can wrap;
  \<^item> a C array is a list; a pointer into \<^verbatim>\<open>chan_pool\<close> is the index of the buffer;
  \<^item> a pair (pointer, size) handed in by the transport or by user space is the list of the
    bytes it designates;
  \<^item> the kernel log, and the calls made to the transport, are recorded in the state; what
    the transport answers to a call is an argument of the function that makes the call.
\<close>

subsection \<open>Configuration (\<^verbatim>\<open>ipc-mem-cfg.h\<close>, \<^verbatim>\<open>ipc-chardev.c\<close>)\<close>

type_synonym byte = "8 word"

definition IPCF_BUF_LEN :: nat where
  "IPCF_BUF_LEN = 128"

definition IPC_QUEUE_SIZE :: "32 word" where
  "IPC_QUEUE_SIZE = 64"

definition IPC_INVALID :: "8 word" where
  "IPC_INVALID = 0xFF"

definition IPC_NUM_CHANNELS :: nat where
  "IPC_NUM_CHANNELS = 2"

subsection \<open>Data model\<close>

text \<open>\<^verbatim>\<open>struct ipc_chan_descr_t\<close> (the embedded \<^verbatim>\<open>struct cdev\<close> is a kernel object and is left out).\<close>

record ipc_chan_descr_t =
  chan_pool :: "byte list list"
  msg_size :: "32 word list"
  msg_processed :: "bool list"
  free_buff_idx :: "32 word"
  num_pending_msg :: "32 word"
  instance_id :: "8 word"
  channel_id :: "8 word"

text \<open>\<^verbatim>\<open>struct ipc_inst_descr_t\<close> and the static table \<^verbatim>\<open>inst_descr\<close>.\<close>

record ipc_inst_descr_t =
  channel_names :: "string list"
  instance_name :: string
  chan_prepend_size :: "bool list"
  channel_count :: "8 word"

definition inst_descr :: "ipc_inst_descr_t list" where
  "inst_descr =
     [\<lparr>channel_names = [''echo'', ''idps_statistics''],
       instance_name = ''M7_0'',
       chan_prepend_size = [False, True],
       channel_count = 2\<rparr>]"

text \<open>The messages the driver writes with \<^verbatim>\<open>printk\<close>, one constructor per call site.\<close>

datatype printk_msg =
    Unknown_device "8 word" int
  | Data_does_not_fit "8 word" int nat
  | Release_failed "8 word" int int
  | Copy_size_failed
  | Copy_payload_failed
  | Acquire_failed "8 word" "8 word" nat
  | Copy_from_user_failed
  | Tx_failed "8 word" "8 word" nat int

text \<open>
  The state of the module: the static array \<^verbatim>\<open>ipc_ch_descr\<close>, the kernel log, and the calls
  made so far to \<^verbatim>\<open>ipc_shm_release_buf\<close> and \<^verbatim>\<open>ipc_shm_tx\<close> (instance, channel, buffer).
\<close>

record module_state =
  ipc_ch_descr :: "ipc_chan_descr_t list"
  printk_log :: "printk_msg list"
  release_calls :: "(8 word \<times> int \<times> byte list) list"
  tx_calls :: "(8 word \<times> 8 word \<times> byte list) list"

text \<open>
  The error results. \<open>TX_ERROR\<close> carries the code \<^verbatim>\<open>ipc_shm_tx\<close> returned. \<open>READ_PAST_BUFFER\<close>
  is not a value the driver returns: it marks the executions in which the driver would read
  past the end of a buffer of the pool, which C leaves undefined and which can happen only when
  a recorded size exceeds \<^verbatim>\<open>IPCF_BUF_LEN\<close>.
\<close>

datatype errno = ENOMEM | EFAULT | TX_ERROR int | READ_PAST_BUFFER

subsection \<open>Kernel primitives the driver calls\<close>

text \<open>
  These belong to the kernel, not to the driver; the driver's functions are modelled on top of
  the following reading of them.

  User memory at the address a system call receives is the list of the bytes that are mapped
  there. \<^verbatim>\<open>copy_to_user\<close> at offset \<open>off\<close> succeeds (\<^verbatim>\<open>0\<close> in C, \<open>Some\<close> of the new memory
  here) when the whole destination is mapped and fails (\<open>None\<close>) otherwise;
  \<^verbatim>\<open>copy_from_user\<close> likewise for the source.
\<close>

definition copy_to_user :: "byte list \<Rightarrow> nat \<Rightarrow> byte list \<Rightarrow> byte list option" where
  "copy_to_user umem off src =
     (if off + length src \<le> length umem
      then Some (take off umem @ src @ drop (off + length src) umem)
      else None)"

definition copy_from_user :: "byte list \<Rightarrow> nat \<Rightarrow> byte list option" where
  "copy_from_user umem n = (if n \<le> length umem then Some (take n umem) else None)"

text \<open>
  \<^verbatim>\<open>cpu_to_be32\<close> on the little-endian cores the driver runs on swaps the four bytes of
  the word; \<open>word_bytes\<close> is the sequence of bytes such a core keeps in memory for a word.
\<close>

definition cpu_to_be32 :: "32 word \<Rightarrow> 32 word" where
  "cpu_to_be32 x =
     push_bit 24 (x AND 0x000000FF) OR push_bit 8 (x AND 0x0000FF00)
     OR drop_bit 8 (x AND 0x00FF0000) OR drop_bit 24 (x AND 0xFF000000)"

definition word_bytes :: "32 word \<Rightarrow> byte list" where
  "word_bytes x = [ucast x, ucast (drop_bit 8 x), ucast (drop_bit 16 x), ucast (drop_bit 24 x)]"

text \<open>\<^verbatim>\<open>memcpy(dst, src, n)\<close> on a destination buffer of at least \<open>n\<close> bytes.\<close>

definition memcpy :: "byte list \<Rightarrow> byte list \<Rightarrow> nat \<Rightarrow> byte list" where
  "memcpy dst src n = take n src @ drop n dst"

subsection \<open>Local functions\<close>

text \<open>\<^verbatim>\<open>get_device_idx\<close>: the first descriptor with the given ids, or \<^verbatim>\<open>IPC_INVALID\<close>.\<close>

fun get_device_idx_from :: "ipc_chan_descr_t list \<Rightarrow> 8 word \<Rightarrow> 8 word \<Rightarrow> 8 word \<Rightarrow> 8 word" where
  "get_device_idx_from [] i inst_id chan_id = IPC_INVALID"
| "get_device_idx_from (d # ds) i inst_id chan_id =
     (if instance_id d = inst_id \<and> channel_id d = chan_id then i
      else get_device_idx_from ds (i + 1) inst_id chan_id)"

definition get_device_idx :: "module_state \<Rightarrow> 8 word \<Rightarrow> 8 word \<Rightarrow> 8 word" where
  "get_device_idx st inst_id chan_id =
     get_device_idx_from (take IPC_NUM_CHANNELS (ipc_ch_descr st)) 0 inst_id chan_id"

text \<open>
  \<^verbatim>\<open>get_next_free_buff\<close>: returns the buffer to fill (its index) and the updated descriptor.
\<close>

definition get_next_free_buff :: "ipc_chan_descr_t \<Rightarrow> 32 word \<Rightarrow> nat \<times> ipc_chan_descr_t" where
  "get_next_free_buff ch sz =
     (let ch1 = (if free_buff_idx ch \<ge> IPC_QUEUE_SIZE then ch\<lparr>free_buff_idx := 0\<rparr> else ch);
          buff_idx = unat (free_buff_idx ch1);
          ch2 = ch1\<lparr>num_pending_msg := min IPC_QUEUE_SIZE (num_pending_msg ch1 + 1)\<rparr>;
          ch3 = ch2\<lparr>msg_size := (msg_size ch2)[buff_idx := sz]\<rparr>;
          ch4 = ch3\<lparr>msg_processed := (msg_processed ch3)[buff_idx := False]\<rparr>;
          ch5 = ch4\<lparr>free_buff_idx := free_buff_idx ch4 + 1\<rparr>
      in (buff_idx, ch5))"

text \<open>
  \<^verbatim>\<open>get_next_pending_buff\<close>: \<open>None\<close> is the \<^verbatim>\<open>NULL\<close> result; otherwise the buffer (its index)
  and the size written through the \<^verbatim>\<open>size\<close> pointer.
\<close>

definition pending_idx :: "ipc_chan_descr_t \<Rightarrow> nat" where
  "pending_idx ch =
     unat ((IPC_QUEUE_SIZE + free_buff_idx ch - num_pending_msg ch) mod IPC_QUEUE_SIZE)"

definition get_next_pending_buff ::
  "ipc_chan_descr_t \<Rightarrow> (nat \<times> 32 word) option \<times> ipc_chan_descr_t" where
  "get_next_pending_buff ch =
     (let buff_idx = pending_idx ch in
      if num_pending_msg ch = 0 then (None, ch)
      else if msg_processed ch ! buff_idx = False then
        (Some (buff_idx, msg_size ch ! buff_idx),
         ch\<lparr>msg_processed := (msg_processed ch)[buff_idx := True],
            num_pending_msg := num_pending_msg ch - 1\<rparr>)
      else (None, ch))"

text \<open>\<^verbatim>\<open>init_state_vars\<close>: the inner loop over the buffers of one descriptor, then the outer
  loop over the descriptors.\<close>

definition init_chan :: "ipc_chan_descr_t \<Rightarrow> ipc_chan_descr_t" where
  "init_chan ch =
     fold (\<lambda>idx c. c\<lparr>msg_size := (msg_size c)[idx := 0],
                      msg_processed := (msg_processed c)[idx := True]\<rparr>)
          [0..<unat IPC_QUEUE_SIZE]
          (ch\<lparr>num_pending_msg := 0, free_buff_idx := 0\<rparr>)"

definition init_state_vars :: "module_state \<Rightarrow> module_state" where
  "init_state_vars st =
     st\<lparr>ipc_ch_descr :=
          fold (\<lambda>ch_idx ds. ds[ch_idx := init_chan (ds ! ch_idx)])
               [0..<IPC_NUM_CHANNELS] (ipc_ch_descr st)\<rparr>"

text \<open>
  The two statements of \<^verbatim>\<open>data_chan_rx_cb\<close> that store a message of \<open>length buf\<close> bytes in a
  descriptor: \<^verbatim>\<open>get_next_free_buff\<close>, then \<^verbatim>\<open>memcpy\<close> into the buffer it returned.
\<close>

definition rx_store :: "ipc_chan_descr_t \<Rightarrow> byte list \<Rightarrow> nat \<times> ipc_chan_descr_t" where
  "rx_store ch buf =
     (let (pbuff, ch') = get_next_free_buff ch (of_nat (length buf))
      in (pbuff, ch'\<lparr>chan_pool := (chan_pool ch')[pbuff := memcpy (chan_pool ch' ! pbuff) buf (length buf)]\<rparr>))"

text \<open>
  \<^verbatim>\<open>data_chan_rx_cb\<close>. \<open>buf\<close> is the received message (\<^verbatim>\<open>size\<close> is its length) and \<open>err\<close> is the
  value \<^verbatim>\<open>ipc_shm_release_buf\<close> returns for this call.
\<close>

definition data_chan_rx_cb :: "module_state \<Rightarrow> 8 word \<Rightarrow> int \<Rightarrow> byte list \<Rightarrow> int \<Rightarrow> module_state" where
  "data_chan_rx_cb st inst_id chan_id buf err =
     (let sz = length buf;
          st1 =
            (if IPCF_BUF_LEN \<ge> sz then
               (let dev_id = get_device_idx st inst_id (of_int chan_id) in
                if IPC_INVALID = dev_id then
                  st\<lparr>printk_log := printk_log st @ [Unknown_device inst_id chan_id]\<rparr>
                else
                  st\<lparr>ipc_ch_descr :=
                       (ipc_ch_descr st)[unat dev_id := snd (rx_store (ipc_ch_descr st ! unat dev_id) buf)]\<rparr>)
             else st\<lparr>printk_log := printk_log st @ [Data_does_not_fit inst_id chan_id sz]\<rparr>);
          st2 = st1\<lparr>release_calls := release_calls st1 @ [(inst_id, chan_id, buf)]\<rparr>
      in if err \<noteq> 0 then st2\<lparr>printk_log := printk_log st2 @ [Release_failed inst_id chan_id err]\<rparr>
         else st2)"

subsection \<open>Global functions\<close>

text \<open>
  \<^verbatim>\<open>ipcf_read\<close>. \<open>dev\<close> is the index of the descriptor the file was opened on
  (\<^verbatim>\<open>pfile->private_data\<close>), \<open>buffer\<close> the user memory at the address passed in, \<open>len\<close> the
  \<^verbatim>\<open>length\<close> argument. The result is the returned count or error, the new state of the module
  and the new contents of the user memory. \<open>hdr\<close> is the outcome of the optional first copy:
  the user memory and the value of \<^verbatim>\<open>ret\<close> after it. \<open>pool_bytes\<close> reads the first \<open>n\<close> bytes
  of a buffer of the pool, as the second \<^verbatim>\<open>copy_to_user\<close> does.
\<close>

definition pool_bytes :: "ipc_chan_descr_t \<Rightarrow> nat \<Rightarrow> nat \<Rightarrow> byte list option" where
  "pool_bytes ch pbuff n =
     (if n \<le> length (chan_pool ch ! pbuff) then Some (take n (chan_pool ch ! pbuff)) else None)"

definition ipcf_read ::
  "module_state \<Rightarrow> nat \<Rightarrow> byte list \<Rightarrow> nat \<Rightarrow> (errno + nat) \<times> module_state \<times> byte list" where
  "ipcf_read st dev buffer len =
     (let ch = ipc_ch_descr st ! dev;
          inst_id = instance_id ch;
          chan_id = channel_id ch;
          (r, ch') = get_next_pending_buff ch;
          st' = st\<lparr>ipc_ch_descr := (ipc_ch_descr st)[dev := ch']\<rparr>
      in case r of
           None \<Rightarrow> (Inr 0, st', buffer)
         | Some (pbuff, pbuff_size) \<Rightarrow>
             (let pbuff_size_be = cpu_to_be32 pbuff_size;
                  hdr = (if chan_prepend_size (inst_descr ! unat inst_id) ! unat chan_id
                         then (case copy_to_user buffer 0 (word_bytes pbuff_size_be) of
                                 None \<Rightarrow> None
                               | Some buffer1 \<Rightarrow> Some (buffer1, 4))
                         else Some (buffer, 0))
              in case hdr of
                   None \<Rightarrow>
                     (Inl EFAULT, st'\<lparr>printk_log := printk_log st' @ [Copy_size_failed]\<rparr>, buffer)
                 | Some (buffer1, ret) \<Rightarrow>
                     (case pool_bytes ch' pbuff (unat pbuff_size) of
                        None \<Rightarrow> (Inl READ_PAST_BUFFER, st', buffer1)
                      | Some payload \<Rightarrow>
                          (case copy_to_user buffer1 ret payload of
                             None \<Rightarrow>
                               (Inl EFAULT,
                                st'\<lparr>printk_log := printk_log st' @ [Copy_payload_failed]\<rparr>,
                                buffer1)
                           | Some buffer2 \<Rightarrow> (Inr (ret + unat pbuff_size), st', buffer2)))))"

text \<open>
  \<^verbatim>\<open>ipcf_write\<close>. \<open>acquired\<close> tells whether \<^verbatim>\<open>ipc_shm_acquire_buf\<close> returns a buffer for this
  call, \<open>err\<close> is the value \<^verbatim>\<open>ipc_shm_tx\<close> returns for it.
\<close>

definition ipcf_write ::
  "module_state \<Rightarrow> nat \<Rightarrow> byte list \<Rightarrow> nat \<Rightarrow> bool \<Rightarrow> int \<Rightarrow> (errno + nat) \<times> module_state" where
  "ipcf_write st dev buffer len acquired err =
     (let ch = ipc_ch_descr st ! dev;
          inst_id = instance_id ch;
          chan_id = channel_id ch;
          len1 = (if IPCF_BUF_LEN < len then IPCF_BUF_LEN else len)
      in if \<not> acquired then
           (Inl ENOMEM, st\<lparr>printk_log := printk_log st @ [Acquire_failed inst_id chan_id len1]\<rparr>)
         else
           (case copy_from_user buffer len1 of
              None \<Rightarrow>
                (Inl EFAULT, st\<lparr>printk_log := printk_log st @ [Copy_from_user_failed]\<rparr>)
            | Some buf \<Rightarrow>
                (let st1 = st\<lparr>tx_calls := tx_calls st @ [(inst_id, chan_id, buf)]\<rparr>
                 in if err \<noteq> 0 then
                      (Inl (TX_ERROR err),
                       st1\<lparr>printk_log := printk_log st1 @ [Tx_failed inst_id chan_id len1 err]\<rparr>)
                    else (Inr len1, st1))))"

subsection \<open>Sequential use of one descriptor\<close>

text \<open>
  A push is what the callback does to the descriptor of a known channel for a message that
  fits (\<open>rx_store\<close>); a pop is \<^verbatim>\<open>get_next_pending_buff\<close>. The message a pop delivers is what
  \<^verbatim>\<open>ipcf_read\<close> copies out of the returned buffer: its first \<open>size\<close> bytes.
\<close>

datatype op = Push "byte list" | Pop

definition fits :: "op \<Rightarrow> bool" where
  "fits x = (case x of Push buf \<Rightarrow> length buf \<le> IPCF_BUF_LEN | Pop \<Rightarrow> True)"

fun exec_ops :: "op list \<Rightarrow> ipc_chan_descr_t \<Rightarrow> ipc_chan_descr_t" where
  "exec_ops [] ch = ch"
| "exec_ops (Push buf # ops) ch = exec_ops ops (snd (rx_store ch buf))"
| "exec_ops (Pop # ops) ch = exec_ops ops (snd (get_next_pending_buff ch))"

text \<open>
  To tell apart two pushes of equal bytes, the trace below numbers the pushes (\<open>c\<close> is the
  number of the next push) and remembers, in the auxiliary list \<open>owner\<close>, the number of the push
  that last filled each buffer. A pop yields \<open>None\<close>, or the number of the push whose buffer
  it returns together with the delivered bytes. The driver's functions are used unchanged.
\<close>

fun pop_trace ::
  "op list \<Rightarrow> nat \<Rightarrow> nat list \<Rightarrow> ipc_chan_descr_t \<Rightarrow> (nat \<times> byte list) option list" where
  "pop_trace [] c owner ch = []"
| "pop_trace (Push buf # ops) c owner ch =
     (let (pbuff, ch') = rx_store ch buf in pop_trace ops (c + 1) (owner[pbuff := c]) ch')"
| "pop_trace (Pop # ops) c owner ch =
     (case get_next_pending_buff ch of
        (None, ch') \<Rightarrow> None # pop_trace ops c owner ch'
      | (Some (pbuff, sz), ch') \<Rightarrow>
          Some (owner ! pbuff, take (unat sz) (chan_pool ch' ! pbuff)) # pop_trace ops c owner ch')"

definition pop_results :: "op list \<Rightarrow> ipc_chan_descr_t \<Rightarrow> (nat \<times> byte list) option list" where
  "pop_results ops ch = pop_trace ops 0 (replicate (unat IPC_QUEUE_SIZE) 0) ch"

fun successes :: "'a option list \<Rightarrow> 'a list" where
  "successes [] = []"
| "successes (None # rs) = successes rs"
| "successes (Some r # rs) = r # successes rs"

fun pop_n :: "nat \<Rightarrow> ipc_chan_descr_t \<Rightarrow> (nat \<times> 32 word) option list \<times> ipc_chan_descr_t" where
  "pop_n 0 ch = ([], ch)"
| "pop_n (Suc n) ch =
     (let (r, ch') = get_next_pending_buff ch; (rs, ch'') = pop_n n ch' in (r # rs, ch''))"

subsection \<open>Notions used to state and prove the properties\<close>

text \<open>The sizes the C types give the arrays of a descriptor.\<close>

definition wf_chan :: "ipc_chan_descr_t \<Rightarrow> bool" where
  "wf_chan ch \<longleftrightarrow>
     length (chan_pool ch) = unat IPC_QUEUE_SIZE \<and>
     list_all (\<lambda>b. length b = IPCF_BUF_LEN) (chan_pool ch) \<and>
     length (msg_size ch) = unat IPC_QUEUE_SIZE \<and>
     length (msg_processed ch) = unat IPC_QUEUE_SIZE"

text \<open>The index \<^verbatim>\<open>get_next_free_buff\<close> writes at: \<^verbatim>\<open>free_buff_idx\<close> after the reset test.\<close>

definition wrapped_idx :: "ipc_chan_descr_t \<Rightarrow> 32 word" where
  "wrapped_idx ch = (if IPC_QUEUE_SIZE \<le> free_buff_idx ch then 0 else free_buff_idx ch)"

text \<open>
  The invariant of the round pool: both counters are at most the queue size, and going round
  from the oldest pending buffer, exactly the first \<^verbatim>\<open>num_pending_msg\<close> buffers are unprocessed.
\<close>

definition ring_inv :: "ipc_chan_descr_t \<Rightarrow> bool" where
  "ring_inv ch \<longleftrightarrow>
     wf_chan ch \<and> unat (free_buff_idx ch) \<le> 64 \<and> unat (num_pending_msg ch) \<le> 64 \<and>
     (\<forall>j<64. msg_processed ch ! ((pending_idx ch + j) mod 64) = (unat (num_pending_msg ch) \<le> j))"

text \<open>The pending messages of a descriptor, oldest first, each with the number of its push.\<close>

definition slot_msg :: "nat list \<Rightarrow> ipc_chan_descr_t \<Rightarrow> nat \<Rightarrow> nat \<times> byte list" where
  "slot_msg owner ch i = (owner ! i, take (unat (msg_size ch ! i)) (chan_pool ch ! i))"

definition pending_queue :: "nat list \<Rightarrow> ipc_chan_descr_t \<Rightarrow> (nat \<times> byte list) list" where
  "pending_queue owner ch =
     map (\<lambda>j. slot_msg owner ch ((pending_idx ch + j) mod 64)) [0..<unat (num_pending_msg ch)]"

text \<open>The bounded queue a descriptor implements: a push on a full queue drops the oldest entry.\<close>

fun queue_trace :: "op list \<Rightarrow> nat \<Rightarrow> (nat \<times> byte list) list \<Rightarrow> (nat \<times> byte list) option list" where
  "queue_trace [] c q = []"
| "queue_trace (Push buf # ops) c q =
     queue_trace ops (c + 1) ((if length q = 64 then tl q else q) @ [(c, buf)])"
| "queue_trace (Pop # ops) c q =
     (case q of [] \<Rightarrow> None # queue_trace ops c [] | x # q' \<Rightarrow> Some x # queue_trace ops c q')"

text \<open>
  Buffer \<open>i\<close> is one of the \<^verbatim>\<open>num_pending_msg\<close> buffers that follow the oldest pending one,
  going round the pool.
\<close>

definition pending_slot :: "ipc_chan_descr_t \<Rightarrow> nat \<Rightarrow> bool" where
  "pending_slot ch i \<longleftrightarrow>
     (i + unat IPC_QUEUE_SIZE - pending_idx ch) mod unat IPC_QUEUE_SIZE < unat (num_pending_msg ch)"

text \<open>
  The range as the specification words it: the half-open range from
  \<open>(next_free_index - pending_count) mod N\<close> up to \<open>next_free_index mod N\<close>, read round the pool
  when its lower end is above its upper end.
\<close>

definition in_claimed_range :: "ipc_chan_descr_t \<Rightarrow> nat \<Rightarrow> bool" where
  "in_claimed_range ch i \<longleftrightarrow>
     (let lo = pending_idx ch; hi = unat (free_buff_idx ch mod IPC_QUEUE_SIZE)
      in if lo \<le> hi then lo \<le> i \<and> i < hi else lo \<le> i \<or> i < hi)"

text \<open>The framing flag of the channel of a descriptor, and the big-endian bytes of a word.\<close>

definition framing_flag :: "ipc_chan_descr_t \<Rightarrow> bool" where
  "framing_flag ch \<longleftrightarrow>
     chan_prepend_size (inst_descr ! unat (instance_id ch)) ! unat (channel_id ch)"

definition be32_bytes :: "32 word \<Rightarrow> byte list" where
  "be32_bytes x = [ucast (drop_bit 24 x), ucast (drop_bit 16 x), ucast (drop_bit 8 x), ucast x]"

subsection \<open>Example states\<close>

text \<open>A descriptor as the zero-initialised static storage holds it when the module is loaded.\<close>

definition zero_chan :: ipc_chan_descr_t where
  "zero_chan =
     \<lparr>chan_pool = replicate 64 (replicate 128 0),
      msg_size = replicate 64 0,
      msg_processed = replicate 64 False,
      free_buff_idx = 0,
      num_pending_msg = 0,
      instance_id = 0,
      channel_id = 0\<rparr>"

text \<open>
  The module once \<^verbatim>\<open>ipcf_module_init\<close> has given the two descriptors their ids and has
  called \<^verbatim>\<open>init_state_vars\<close>.
\<close>

definition loaded_state :: module_state where
  "loaded_state =
     init_state_vars
       \<lparr>ipc_ch_descr = [zero_chan\<lparr>channel_id := 0\<rparr>, zero_chan\<lparr>channel_id := 1\<rparr>],
        printk_log = [],
        release_calls = [],
        tx_calls = []\<rparr>"

text \<open>The loaded module after one message has arrived on the framed, or on the raw, channel.\<close>

definition framed_msg_state :: module_state where
  "framed_msg_state = data_chan_rx_cb loaded_state 0 1 [1, 2, 3] 0"

definition raw_msg_state :: module_state where
  "raw_msg_state = data_chan_rx_cb loaded_state 0 0 [9, 8] 0"

text \<open>A descriptor filled by 64 messages of one byte, none read.\<close>

definition full_chan :: ipc_chan_descr_t where
  "full_chan = exec_ops (replicate 64 (Push [0x41])) (init_chan zero_chan)"

text \<open>A descriptor whose counters are outside the range the driver keeps them in.\<close>

definition bad_chan :: ipc_chan_descr_t where
  "bad_chan = zero_chan\<lparr>free_buff_idx := 100, num_pending_msg := 0xFFFFFFFF\<rparr>"

section \<open>Auxiliary lemmas\<close>

subsection \<open>Arithmetic round the pool\<close>

lemma ring_add_inj:
  fixes a j p N :: nat
  assumes "j < N" "p < N" "(a + j) mod N = (a + p) mod N"
  shows "j = p"
proof -
  have aux: "x = y" if "x \<le> y" "y < N" "(a + x) mod N = (a + y) mod N" for x y
  proof -
    from that have "a + x \<le> a + y" by simp
    then have "N dvd (a + y) - (a + x)"
      using that(3) mod_eq_dvd_iff_nat [of "a + x" "a + y" N] by simp
    then have "N dvd y - x" by simp
    moreover have "y - x < N" using that by simp
    ultimately have "y - x = 0" by (meson dvd_imp_le not_less zero_less_iff_neq_zero)
    with that show ?thesis by simp
  qed
  show ?thesis
  proof (cases "j \<le> p")
    case True
    with assms aux [of j p] show ?thesis by simp
  next
    case False
    with assms aux [of p j] show ?thesis by simp
  qed
qed

lemma ring_back:
  fixes a k N :: nat
  assumes "k < N"
  shows "(a + (k + N - a mod N) mod N) mod N = k"
proof -
  have "a mod N \<le> N" using assms by simp
  then have "a mod N + (k + N - a mod N) = k + N" by simp
  then have "(a mod N + (k + N - a mod N)) mod N = k" using assms by simp
  then show ?thesis by (simp add: mod_simps)
qed

lemma ring_sub_add:
  fixes f p N :: nat
  assumes "p \<le> N"
  shows "((N + f - p) mod N + p) mod N = f mod N"
proof -
  have "(N + f - p) + p = N + f" using assms by simp
  then have "((N + f - p) + p) mod N = f mod N" by simp
  then show ?thesis by (simp add: mod_simps)
qed

lemma ring_wrap:
  fixes f p N :: nat
  assumes "p \<le> N"
  shows "(N + f mod N - p) mod N = (N + f - p) mod N"
proof -
  have "(N - p + f mod N) mod N = (N - p + f) mod N" by (simp add: mod_simps)
  moreover have "N + f mod N - p = N - p + f mod N" "N + f - p = N - p + f"
    using assms by simp_all
  ultimately show ?thesis by simp
qed

lemma ring_next:
  fixes f p N :: nat
  assumes "0 < p" "p \<le> N"
  shows "(N + f - (p - 1)) mod N = ((N + f - p) mod N + 1) mod N"
proof -
  have "N + f - (p - 1) = (N + f - p) + 1" using assms by simp
  then show ?thesis by (simp add: mod_simps)
qed

subsection \<open>Machine words\<close>

lemma unat_IPC_QUEUE_SIZE: "unat IPC_QUEUE_SIZE = 64"
  by (simp add: IPC_QUEUE_SIZE_def)

lemma unat_of_nat_len: "n \<le> 128 \<Longrightarrow> unat (of_nat n :: 32 word) = n"
  by (simp add: unat_of_nat)

lemma unat_min_succ:
  fixes p :: "32 word"
  assumes "p \<noteq> - 1"
  shows "unat (min IPC_QUEUE_SIZE (p + 1)) = min 64 (unat p + 1)"
proof -
  from assms have "1 + p \<noteq> 0" by (metis add.commute max_word_wrap)
  then have "unat (1 + p) = Suc (unat p)" by (rule unatSuc)
  then have "unat (p + 1) = unat p + 1" by (simp add: add.commute)
  then show ?thesis
    by (simp add: min_def word_le_nat_alt IPC_QUEUE_SIZE_def)
qed

lemma pending_idx_nat:
  assumes "unat (free_buff_idx ch) \<le> 64" "unat (num_pending_msg ch) \<le> 64"
  shows "pending_idx ch = (64 + unat (free_buff_idx ch) - unat (num_pending_msg ch)) mod 64"
proof -
  have a: "unat (64 + free_buff_idx ch) = 64 + unat (free_buff_idx ch)"
    using assms(1) by (simp add: unat_word_ariths)
  have "unat (num_pending_msg ch) \<le> unat (64 + free_buff_idx ch)"
    using assms(2) a by simp
  then have "num_pending_msg ch \<le> 64 + free_buff_idx ch"
    by (simp add: word_le_nat_alt)
  then have "unat (64 + free_buff_idx ch - num_pending_msg ch)
      = 64 + unat (free_buff_idx ch) - unat (num_pending_msg ch)"
    using a by (simp add: unat_sub)
  then show ?thesis
    by (simp add: pending_idx_def IPC_QUEUE_SIZE_def unat_mod)
qed

lemma byte_mask_0: "(0xFF :: 32 word) = mask 8" by (simp add: mask_eq_exp_minus_1)

lemma byte_mask_1: "(0xFF00 :: 32 word) = push_bit 8 (mask 8)" by (simp add: mask_eq_exp_minus_1)

lemma byte_mask_2: "(0xFF0000 :: 32 word) = push_bit 16 (mask 8)" by (simp add: mask_eq_exp_minus_1)

lemma byte_mask_3: "(0xFF000000 :: 32 word) = push_bit 24 (mask 8)" by (simp add: mask_eq_exp_minus_1)

lemma word_bytes_be: "word_bytes (cpu_to_be32 x) = be32_bytes x"
proof -
  have "(ucast (cpu_to_be32 x) :: 8 word) = ucast (drop_bit 24 x)"
    unfolding cpu_to_be32_def byte_mask_0 byte_mask_1 byte_mask_2 byte_mask_3
    by (rule bit_word_eqI) (auto simp: bit_simps)
  moreover have "(ucast (drop_bit 8 (cpu_to_be32 x)) :: 8 word) = ucast (drop_bit 16 x)"
    unfolding cpu_to_be32_def byte_mask_0 byte_mask_1 byte_mask_2 byte_mask_3
    by (rule bit_word_eqI) (auto simp: bit_simps)
  moreover have "(ucast (drop_bit 16 (cpu_to_be32 x)) :: 8 word) = ucast (drop_bit 8 x)"
    unfolding cpu_to_be32_def byte_mask_0 byte_mask_1 byte_mask_2 byte_mask_3
    by (rule bit_word_eqI) (auto simp: bit_simps)
  moreover have "(ucast (drop_bit 24 (cpu_to_be32 x)) :: 8 word) = ucast x"
    unfolding cpu_to_be32_def byte_mask_0 byte_mask_1 byte_mask_2 byte_mask_3
    by (rule bit_word_eqI) (auto simp: bit_simps)
  ultimately show ?thesis by (simp add: word_bytes_def be32_bytes_def)
qed

subsection \<open>The functions on one descriptor\<close>

lemma wf_chan_lengths:
  "wf_chan ch \<Longrightarrow> length (chan_pool ch) = 64"
  "wf_chan ch \<Longrightarrow> length (msg_size ch) = 64"
  "wf_chan ch \<Longrightarrow> length (msg_processed ch) = 64"
  "wf_chan ch \<Longrightarrow> i < 64 \<Longrightarrow> length (chan_pool ch ! i) = 128"
  by (auto simp: wf_chan_def IPC_QUEUE_SIZE_def IPCF_BUF_LEN_def list_all_length)

lemma free_buff_fields:
  assumes "unat (free_buff_idx ch) \<le> 64" "unat (num_pending_msg ch) \<le> 64"
    and "get_next_free_buff ch sz = (i, ch')"
  shows "i = unat (free_buff_idx ch) mod 64"
    and "unat (free_buff_idx ch') = i + 1"
    and "unat (num_pending_msg ch') = min 64 (unat (num_pending_msg ch) + 1)"
    and "msg_size ch' = (msg_size ch)[i := sz]"
    and "msg_processed ch' = (msg_processed ch)[i := False]"
    and "chan_pool ch' = chan_pool ch"
    and "instance_id ch' = instance_id ch"
    and "channel_id ch' = channel_id ch"
proof -
  let ?f = "free_buff_idx ch" and ?p = "num_pending_msg ch"
  have f1: "unat (if IPC_QUEUE_SIZE \<le> ?f then 0 else ?f) = unat ?f mod 64"
    using assms(1) by (auto simp: IPC_QUEUE_SIZE_def word_le_nat_alt)
  have p1: "unat (min IPC_QUEUE_SIZE (?p + 1)) = min 64 (unat ?p + 1)"
    using assms(2) by (auto simp: IPC_QUEUE_SIZE_def min_def word_le_nat_alt unat_word_ariths)
  have f2: "unat ((if IPC_QUEUE_SIZE \<le> ?f then 0 else ?f) + 1) = unat ?f mod 64 + 1"
    using assms(1) by (auto simp: IPC_QUEUE_SIZE_def word_le_nat_alt unat_word_ariths)
  from assms(3) f1 show "i = unat (free_buff_idx ch) mod 64"
    by (auto simp: get_next_free_buff_def Let_def split: if_splits)
  from assms(3) f1 f2 show "unat (free_buff_idx ch') = i + 1"
    by (auto simp: get_next_free_buff_def Let_def split: if_splits)
  from assms(3) p1 show "unat (num_pending_msg ch') = min 64 (unat (num_pending_msg ch) + 1)"
    by (auto simp: get_next_free_buff_def Let_def split: if_splits)
  from assms(3) show "msg_size ch' = (msg_size ch)[i := sz]"
    by (auto simp: get_next_free_buff_def Let_def split: if_splits)
  from assms(3) show "msg_processed ch' = (msg_processed ch)[i := False]"
    by (auto simp: get_next_free_buff_def Let_def split: if_splits)
  from assms(3) show "chan_pool ch' = chan_pool ch"
    by (auto simp: get_next_free_buff_def Let_def split: if_splits)
  from assms(3) show "instance_id ch' = instance_id ch"
    by (auto simp: get_next_free_buff_def Let_def split: if_splits)
  from assms(3) show "channel_id ch' = channel_id ch"
    by (auto simp: get_next_free_buff_def Let_def split: if_splits)
qed

lemma rx_store_fields:
  assumes "unat (free_buff_idx ch) \<le> 64" "unat (num_pending_msg ch) \<le> 64"
    and "rx_store ch buf = (i, ch')"
  shows "i = unat (free_buff_idx ch) mod 64"
    and "unat (free_buff_idx ch') = i + 1"
    and "unat (num_pending_msg ch') = min 64 (unat (num_pending_msg ch) + 1)"
    and "msg_size ch' = (msg_size ch)[i := of_nat (length buf)]"
    and "msg_processed ch' = (msg_processed ch)[i := False]"
    and "chan_pool ch' = (chan_pool ch)[i := buf @ drop (length buf) (chan_pool ch ! i)]"
    and "instance_id ch' = instance_id ch"
    and "channel_id ch' = channel_id ch"
proof -
  obtain ch1 where g: "get_next_free_buff ch (of_nat (length buf)) = (i, ch1)"
    and c: "ch' = ch1\<lparr>chan_pool := (chan_pool ch1)[i := memcpy (chan_pool ch1 ! i) buf (length buf)]\<rparr>"
    using assms(3) by (auto simp: rx_store_def split: prod.splits)
  note F = free_buff_fields [OF assms(1,2) g]
  show "i = unat (free_buff_idx ch) mod 64" by (rule F)
  show "unat (free_buff_idx ch') = i + 1" using F(2) c by simp
  show "unat (num_pending_msg ch') = min 64 (unat (num_pending_msg ch) + 1)" using F(3) c by simp
  show "msg_size ch' = (msg_size ch)[i := of_nat (length buf)]" using F(4) c by simp
  show "msg_processed ch' = (msg_processed ch)[i := False]" using F(5) c by simp
  show "chan_pool ch' = (chan_pool ch)[i := buf @ drop (length buf) (chan_pool ch ! i)]"
    using F(6) c by (simp add: memcpy_def)
  show "instance_id ch' = instance_id ch" using F(7) c by simp
  show "channel_id ch' = channel_id ch" using F(8) c by simp
qed

lemma wrapped_idx_less: "unat (wrapped_idx ch) < 64"
  by (auto simp: wrapped_idx_def IPC_QUEUE_SIZE_def word_le_nat_alt)

lemma rx_store_unfold:
  "rx_store ch buf =
     (let f1 = wrapped_idx ch
      in (unat f1,
          ch\<lparr>free_buff_idx := f1 + 1,
             num_pending_msg := min IPC_QUEUE_SIZE (num_pending_msg ch + 1),
             msg_size := (msg_size ch)[unat f1 := of_nat (length buf)],
             msg_processed := (msg_processed ch)[unat f1 := False],
             chan_pool := (chan_pool ch)[unat f1 := buf @ drop (length buf) (chan_pool ch ! unat f1)]\<rparr>))"
  by (simp add: rx_store_def get_next_free_buff_def Let_def memcpy_def wrapped_idx_def)

lemma rx_store_idx:
  assumes fb: "unat (free_buff_idx ch) \<le> 64" and pb: "unat (num_pending_msg ch) \<le> 64"
    and st: "rx_store ch buf = (i, ch')"
  shows "i = (pending_idx ch + unat (num_pending_msg ch)) mod 64"
    and "unat (num_pending_msg ch) < 64 \<Longrightarrow> pending_idx ch' = pending_idx ch"
    and "unat (num_pending_msg ch) = 64 \<Longrightarrow> pending_idx ch' = (i + 1) mod 64"
    and "unat (num_pending_msg ch) = 64 \<Longrightarrow> pending_idx ch = i"
proof -
  let ?f = "unat (free_buff_idx ch)" and ?p = "unat (num_pending_msg ch)"
  note S = rx_store_fields [OF fb pb st]
  have i64: "i < 64" using S(1) by simp
  have fb': "unat (free_buff_idx ch') \<le> 64" using S(2) i64 by simp
  have pb': "unat (num_pending_msg ch') \<le> 64" using S(3) by simp
  have a: "pending_idx ch = (64 + ?f - ?p) mod 64"
    by (rule pending_idx_nat [OF fb pb])
  have a': "pending_idx ch' = (64 + (i + 1) - min 64 (?p + 1)) mod 64"
    using pending_idx_nat [OF fb' pb'] S(2,3) by simp
  show "i = (pending_idx ch + ?p) mod 64"
    using a pb S(1) ring_sub_add [of ?p 64 ?f] by simp
  show "pending_idx ch' = pending_idx ch" if p: "?p < 64"
  proof -
    have m: "min 64 (?p + 1) = ?p + 1" using p by simp
    have "pending_idx ch' = (64 + (i + 1) - (?p + 1)) mod 64"
      using a' unfolding m .
    also have "64 + (i + 1) - (?p + 1) = 64 + ?f mod 64 - ?p"
      unfolding S(1) by simp
    also have "(64 + ?f mod 64 - ?p) mod 64 = (64 + ?f - ?p) mod 64"
      using pb by (rule ring_wrap)
    finally show ?thesis using a by simp
  qed
  show "pending_idx ch' = (i + 1) mod 64" if p: "?p = 64"
    using a' p by simp
  show "pending_idx ch = i" if p: "?p = 64"
    using a p S(1) by simp
qed

lemma rx_store_inv:
  assumes inv: "ring_inv ch" and len: "length buf \<le> 128"
    and st: "rx_store ch buf = (i, ch')"
  shows "ring_inv ch'"
proof -
  let ?f = "unat (free_buff_idx ch)" and ?p = "unat (num_pending_msg ch)"
  from inv have wf: "wf_chan ch" and fb: "?f \<le> 64" and pb: "?p \<le> 64"
    and fl: "\<And>j. j < 64 \<Longrightarrow> msg_processed ch ! ((pending_idx ch + j) mod 64) = (?p \<le> j)"
    by (auto simp: ring_inv_def)
  note S = rx_store_fields [OF fb pb st]
  have i64: "i < 64" using S(1) by simp
  have wf': "wf_chan ch'"
    using wf len i64 unfolding wf_chan_def S(4,5,6)
    by (auto simp: list_all_length nth_list_update IPCF_BUF_LEN_def IPC_QUEUE_SIZE_def)
  have fb': "unat (free_buff_idx ch') \<le> 64" using S(2) i64 by simp
  have pb': "unat (num_pending_msg ch') \<le> 64" using S(3) by simp
  have a: "pending_idx ch = (64 + ?f - ?p) mod 64"
    by (rule pending_idx_nat [OF fb pb])
  have a': "pending_idx ch' = (64 + (i + 1) - min 64 (?p + 1)) mod 64"
    using pending_idx_nat [OF fb' pb'] S(2,3) by simp
  have "msg_processed ch' ! ((pending_idx ch' + j) mod 64) = (unat (num_pending_msg ch') \<le> j)"
    if j: "j < 64" for j
  proof (cases "?p = 64")
    case True
    have all: "\<not> msg_processed ch ! k" if "k < 64" for k
    proof -
      have "(pending_idx ch + (k + 64 - pending_idx ch mod 64) mod 64) mod 64 = k"
        using that by (rule ring_back)
      with fl [of "(k + 64 - pending_idx ch mod 64) mod 64"] True show ?thesis by simp
    qed
    have "\<not> (msg_processed ch)[i := False] ! k" if "k < 64" for k
      using that all [of k] wf i64 by (simp add: nth_list_update wf_chan_lengths)
    from this [of "(pending_idx ch' + j) mod 64"] show ?thesis
      using True S(3) j by (simp add: S(5))
  next
    case False
    with pb have p: "?p < 64" by simp
    have m: "min 64 (?p + 1) = ?p + 1" using p by simp
    have "pending_idx ch' = (64 + (i + 1) - (?p + 1)) mod 64"
      using a' unfolding m .
    also have "64 + (i + 1) - (?p + 1) = 64 + ?f mod 64 - ?p"
      unfolding S(1) by simp
    also have "(64 + ?f mod 64 - ?p) mod 64 = (64 + ?f - ?p) mod 64"
      using pb by (rule ring_wrap)
    finally have e: "pending_idx ch' = pending_idx ch"
      using a by simp
    have ii: "i = (pending_idx ch + ?p) mod 64"
      using a pb S(1) ring_sub_add [of ?p 64 ?f] by simp
    have "((pending_idx ch + j) mod 64 = i) = (j = ?p)"
      using ii j p ring_add_inj [of j 64 ?p "pending_idx ch"] by auto
    then show ?thesis
      using fl [OF j] p S(3) wf i64 unfolding e S(5)
      by (auto simp: nth_list_update wf_chan_lengths)
  qed
  with wf' fb' pb' show ?thesis by (simp add: ring_inv_def)
qed

lemma pop_none: "num_pending_msg ch = 0 \<Longrightarrow> get_next_pending_buff ch = (None, ch)"
  by (simp add: get_next_pending_buff_def Let_def)

lemma pop_nothing:
  "num_pending_msg ch = 0 \<or> msg_processed ch ! pending_idx ch \<Longrightarrow>
   get_next_pending_buff ch = (None, ch)"
  by (auto simp: get_next_pending_buff_def Let_def)

lemma pop_some:
  assumes inv: "ring_inv ch" and p0: "num_pending_msg ch \<noteq> 0"
  shows "get_next_pending_buff ch =
           (Some (pending_idx ch, msg_size ch ! pending_idx ch),
            ch\<lparr>msg_processed := (msg_processed ch)[pending_idx ch := True],
               num_pending_msg := num_pending_msg ch - 1\<rparr>)"
proof -
  have a64: "pending_idx ch < 64"
    using inv by (simp add: ring_inv_def pending_idx_nat)
  from p0 have "0 < unat (num_pending_msg ch)" by (simp add: unat_gt_0)
  with inv have "msg_processed ch ! ((pending_idx ch + 0) mod 64) = False"
    unfolding ring_inv_def by (metis not_le zero_less_numeral)
  with a64 have "msg_processed ch ! pending_idx ch = False" by simp
  with p0 show ?thesis by (simp add: get_next_pending_buff_def Let_def)
qed

lemma pop_inv:
  assumes inv: "ring_inv ch" and p0: "num_pending_msg ch \<noteq> 0"
    and ch': "ch' = ch\<lparr>msg_processed := (msg_processed ch)[pending_idx ch := True],
               num_pending_msg := num_pending_msg ch - 1\<rparr>"
  shows "ring_inv ch'"
    and "pending_idx ch' = (pending_idx ch + 1) mod 64"
    and "unat (num_pending_msg ch') = unat (num_pending_msg ch) - 1"
proof -
  let ?f = "unat (free_buff_idx ch)" and ?p = "unat (num_pending_msg ch)"
  let ?a = "pending_idx ch"
  from inv have wf: "wf_chan ch" and fb: "?f \<le> 64" and pb: "?p \<le> 64"
    and fl: "\<And>j. j < 64 \<Longrightarrow> msg_processed ch ! ((?a + j) mod 64) = (?p \<le> j)"
    by (auto simp: ring_inv_def)
  from p0 have pp: "0 < ?p" by (simp add: unat_gt_0)
  have a: "?a = (64 + ?f - ?p) mod 64" by (rule pending_idx_nat [OF fb pb])
  have a64: "?a < 64" using a by simp
  show p': "unat (num_pending_msg ch') = ?p - 1"
    using p0 by (simp add: ch' unat_minus_one)
  have fb': "unat (free_buff_idx ch') \<le> 64" using fb by (simp add: ch')
  have pb': "unat (num_pending_msg ch') \<le> 64" using pb p' by simp
  have "pending_idx ch' = (64 + ?f - (?p - 1)) mod 64"
    using pending_idx_nat [OF fb' pb'] p' by (simp add: ch')
  also have "\<dots> = ((64 + ?f - ?p) mod 64 + 1) mod 64"
    using pp pb by (rule ring_next)
  finally show a': "pending_idx ch' = (?a + 1) mod 64" using a by simp
  have wf': "wf_chan ch'" using wf by (simp add: wf_chan_def ch')
  have "msg_processed ch' ! ((pending_idx ch' + j) mod 64) = (unat (num_pending_msg ch') \<le> j)"
    if j: "j < 64" for j
  proof -
    have e: "(pending_idx ch' + j) mod 64 = (?a + (j + 1)) mod 64"
      by (simp add: a' mod_simps)
    show ?thesis
    proof (cases "j = 63")
      case True
      then have "(?a + (j + 1)) mod 64 = ?a" using a64 by simp
      then show ?thesis
        using True p' pb a64 wf unfolding e by (simp add: ch' wf_chan_lengths)
    next
      case False
      with j have j1: "j + 1 < 64" by simp
      have "(?a + (j + 1)) mod 64 \<noteq> (?a + 0) mod 64"
        using ring_add_inj [of "j + 1" 64 0 ?a] j1 by auto
      then have "(?a + (j + 1)) mod 64 \<noteq> ?a" using a64 by simp
      then have "msg_processed ch' ! ((?a + (j + 1)) mod 64) = msg_processed ch ! ((?a + (j + 1)) mod 64)"
        by (simp add: ch')
      also have "\<dots> = (?p \<le> j + 1)" by (rule fl [OF j1])
      finally show ?thesis using p' pp unfolding e by auto
    qed
  qed
  with wf' fb' pb' show "ring_inv ch'" by (simp add: ring_inv_def)
qed

lemma pop_pool:
  "get_next_pending_buff ch = (r, ch') \<Longrightarrow> chan_pool ch' = chan_pool ch"
  by (auto simp: get_next_pending_buff_def Let_def split: if_splits)

lemma pop_ids:
  "get_next_pending_buff ch = (r, ch') \<Longrightarrow> instance_id ch' = instance_id ch \<and> channel_id ch' = channel_id ch"
  by (auto simp: get_next_pending_buff_def Let_def split: if_splits)

subsection \<open>The reset state\<close>

lemma init_fold:
  fixes c0 :: ipc_chan_descr_t
  defines "f \<equiv> \<lambda>idx c. c\<lparr>msg_size := (msg_size c)[idx := 0],
                             msg_processed := (msg_processed c)[idx := True]\<rparr>"
  shows "chan_pool (fold f [0..<n] c0) = chan_pool c0
       \<and> free_buff_idx (fold f [0..<n] c0) = free_buff_idx c0
       \<and> num_pending_msg (fold f [0..<n] c0) = num_pending_msg c0
       \<and> length (msg_size (fold f [0..<n] c0)) = length (msg_size c0)
       \<and> length (msg_processed (fold f [0..<n] c0)) = length (msg_processed c0)
       \<and> (\<forall>i<n. i < length (msg_processed c0) \<longrightarrow> msg_processed (fold f [0..<n] c0) ! i)"
proof (induction n)
  case 0
  show ?case by simp
next
  case (Suc n)
  then show ?case
    by (auto simp: f_def nth_list_update less_Suc_eq)
qed

lemma init_chan_fields:
  "free_buff_idx (init_chan ch) = 0"
  "num_pending_msg (init_chan ch) = 0"
  "chan_pool (init_chan ch) = chan_pool ch"
  using init_fold [of 64 "ch\<lparr>num_pending_msg := 0, free_buff_idx := 0\<rparr>",
      folded init_chan_def [of ch, unfolded unat_IPC_QUEUE_SIZE]]
  by simp_all

lemma init_chan_ids:
  "instance_id (init_chan ch) = instance_id ch \<and> channel_id (init_chan ch) = channel_id ch"
proof -
  have "instance_id (fold (\<lambda>idx c. c\<lparr>msg_size := (msg_size c)[idx := 0],
                      msg_processed := (msg_processed c)[idx := True]\<rparr>) xs c0) = instance_id c0
      \<and> channel_id (fold (\<lambda>idx c. c\<lparr>msg_size := (msg_size c)[idx := 0],
                      msg_processed := (msg_processed c)[idx := True]\<rparr>) xs c0) = channel_id c0"
    for xs and c0 :: ipc_chan_descr_t
    by (induction xs arbitrary: c0) simp_all
  then show ?thesis by (simp add: init_chan_def)
qed

lemma init_chan_inv:
  assumes "wf_chan ch"
  shows "ring_inv (init_chan ch)"
proof -
  let ?c0 = "ch\<lparr>num_pending_msg := 0, free_buff_idx := 0\<rparr>"
  note F = init_fold [of 64 ?c0, folded init_chan_def [of ch, unfolded unat_IPC_QUEUE_SIZE]]
  from F assms have wf: "wf_chan (init_chan ch)" by (simp add: wf_chan_def)
  from F have z: "free_buff_idx (init_chan ch) = 0" "num_pending_msg (init_chan ch) = 0"
    by simp_all
  have a: "pending_idx (init_chan ch) = 0"
    by (simp add: pending_idx_def z IPC_QUEUE_SIZE_def)
  have "msg_processed (init_chan ch) ! i" if "i < 64" for i
    using F that assms by (simp add: wf_chan_lengths)
  with wf z a show ?thesis by (simp add: ring_inv_def)
qed

lemma wf_zero_chan: "wf_chan zero_chan"
  by (simp add: wf_chan_def zero_chan_def IPC_QUEUE_SIZE_def IPCF_BUF_LEN_def list_all_length)

subsection \<open>The descriptor as a bounded queue\<close>

lemma pending_queue_alt:
  "pending_queue owner ch =
     map (\<lambda>j. slot_msg owner ch ((pending_idx ch + j) mod 64)) [0..<unat (num_pending_msg ch)]"
  by (simp add: pending_queue_def)

lemma pending_queue_empty: "num_pending_msg ch = 0 \<Longrightarrow> pending_queue owner ch = []"
  by (simp add: pending_queue_def)

lemma init_chan_queue: "pending_queue owner (init_chan ch) = []"
proof -
  let ?c0 = "ch\<lparr>num_pending_msg := 0, free_buff_idx := 0\<rparr>"
  note F = init_fold [of 64 ?c0, folded init_chan_def [of ch, unfolded unat_IPC_QUEUE_SIZE]]
  then have "num_pending_msg (init_chan ch) = 0" by simp
  then show ?thesis by (rule pending_queue_empty)
qed

lemma slot_msg_rx_store:
  assumes inv: "ring_inv ch" and len: "length buf \<le> 128" and lo: "length owner = 64"
    and st: "rx_store ch buf = (i, ch')"
  shows "slot_msg (owner[i := c]) ch' i = (c, buf)"
    and "k \<noteq> i \<Longrightarrow> slot_msg (owner[i := c]) ch' k = slot_msg owner ch k"
proof -
  from inv have wf: "wf_chan ch" and fb: "unat (free_buff_idx ch) \<le> 64"
    and pb: "unat (num_pending_msg ch) \<le> 64"
    by (auto simp: ring_inv_def)
  note S = rx_store_fields [OF fb pb st]
  have i64: "i < 64" using S(1) by simp
  show "slot_msg (owner[i := c]) ch' i = (c, buf)"
    using i64 lo wf len by (simp add: slot_msg_def S(4,6) wf_chan_lengths unat_of_nat_len)
  show "slot_msg (owner[i := c]) ch' k = slot_msg owner ch k" if "k \<noteq> i"
    using that by (simp add: slot_msg_def S(4,6))
qed

lemma rx_store_queue:
  assumes inv: "ring_inv ch" and len: "length buf \<le> 128" and lo: "length owner = 64"
    and st: "rx_store ch buf = (i, ch')"
  shows "pending_queue (owner[i := c]) ch' =
           (if length (pending_queue owner ch) = 64 then tl (pending_queue owner ch)
            else pending_queue owner ch) @ [(c, buf)]"
proof -
  let ?p = "unat (num_pending_msg ch)"
  let ?a = "pending_idx ch"
  from inv have fb: "unat (free_buff_idx ch) \<le> 64" and pb: "?p \<le> 64"
    by (auto simp: ring_inv_def)
  note S = rx_store_fields [OF fb pb st]
  note I = rx_store_idx [OF fb pb st]
  note M = slot_msg_rx_store [OF inv len lo st]
  have lq: "length (pending_queue owner ch) = ?p" by (simp add: pending_queue_alt)
  show ?thesis
  proof (cases "?p = 64")
    case True
    have p': "unat (num_pending_msg ch') = 64" using S(3) True by simp
    have "pending_queue (owner[i := c]) ch' = tl (pending_queue owner ch) @ [(c, buf)]"
    proof (rule nth_equalityI)
      show "length (pending_queue (owner[i := c]) ch') = length (tl (pending_queue owner ch) @ [(c, buf)])"
        using True p' by (simp add: pending_queue_alt)
    next
      fix k assume "k < length (pending_queue (owner[i := c]) ch')"
      then have k: "k < 64" using p' by (simp add: pending_queue_alt)
      have l: "pending_queue (owner[i := c]) ch' ! k = slot_msg (owner[i := c]) ch' ((i + (k + 1)) mod 64)"
        using k p' I(3) [OF True] by (simp add: pending_queue_alt mod_simps)
      show "pending_queue (owner[i := c]) ch' ! k = (tl (pending_queue owner ch) @ [(c, buf)]) ! k"
      proof (cases "k = 63")
        case True
        moreover have "i mod 64 = i" using S(1) by simp
        ultimately show ?thesis using l lq \<open>?p = 64\<close> M(1) by (simp add: nth_append)
      next
        case False
        with k have k1: "k + 1 < 64" by simp
        have "(i + (k + 1)) mod 64 \<noteq> (i + 0) mod 64"
          using ring_add_inj [of "k + 1" 64 0 i] k1 by auto
        then have ne: "(i + (k + 1)) mod 64 \<noteq> i" using S(1) by simp
        have "tl (pending_queue owner ch) ! k = slot_msg owner ch ((i + (k + 1)) mod 64)"
          using k1 lq \<open>?p = 64\<close> I(4) [OF \<open>?p = 64\<close>]
          by (simp add: nth_tl) (simp add: pending_queue_alt)
        then show ?thesis
          using l M(2) [OF ne] k1 lq \<open>?p = 64\<close> by (simp add: nth_append)
      qed
    qed
    then show ?thesis using lq True by simp
  next
    case False
    with pb have p: "?p < 64" by simp
    have p': "unat (num_pending_msg ch') = ?p + 1" using S(3) p by simp
    have ne: "(?a + j) mod 64 \<noteq> i" if "j < ?p" for j
      using ring_add_inj [of j 64 ?p ?a] that p I(1) by auto
    have "pending_queue (owner[i := c]) ch' =
            map (\<lambda>j. slot_msg (owner[i := c]) ch' ((?a + j) mod 64)) [0..<?p]
            @ [slot_msg (owner[i := c]) ch' ((?a + ?p) mod 64)]"
      by (simp add: pending_queue_alt p' I(2) [OF p])
    also have "map (\<lambda>j. slot_msg (owner[i := c]) ch' ((?a + j) mod 64)) [0..<?p]
             = pending_queue owner ch"
      unfolding pending_queue_alt using M(2) ne by (intro map_cong) auto
    also have "slot_msg (owner[i := c]) ch' ((?a + ?p) mod 64) = (c, buf)"
      using I(1) M(1) by simp
    finally show ?thesis using lq p by simp
  qed
qed

lemma pop_queue:
  assumes inv: "ring_inv ch" and p0: "num_pending_msg ch \<noteq> 0"
    and ch': "ch' = ch\<lparr>msg_processed := (msg_processed ch)[pending_idx ch := True],
               num_pending_msg := num_pending_msg ch - 1\<rparr>"
  shows "pending_queue owner ch =
           (owner ! pending_idx ch, take (unat (msg_size ch ! pending_idx ch)) (chan_pool ch' ! pending_idx ch))
           # pending_queue owner ch'"
proof -
  let ?p = "unat (num_pending_msg ch)"
  let ?a = "pending_idx ch"
  note P = pop_inv [OF inv p0 ch']
  from p0 have pp: "0 < ?p" by (simp add: unat_gt_0)
  have a64: "?a < 64" using inv by (simp add: ring_inv_def pending_idx_nat)
  have sm: "slot_msg owner ch' k = slot_msg owner ch k" for k
    by (simp add: slot_msg_def ch')
  have "[0..<?p] = 0 # map Suc [0..<?p - 1]"
    using pp by (metis One_nat_def Suc_pred map_Suc_upt upt_conv_Cons)
  then have "pending_queue owner ch =
      slot_msg owner ch ((?a + 0) mod 64)
      # map (\<lambda>j. slot_msg owner ch ((?a + Suc j) mod 64)) [0..<?p - 1]"
    by (simp add: pending_queue_alt comp_def)
  also have "slot_msg owner ch ((?a + 0) mod 64) =
      (owner ! ?a, take (unat (msg_size ch ! ?a)) (chan_pool ch' ! ?a))"
    using a64 by (simp add: slot_msg_def ch')
  also have "map (\<lambda>j. slot_msg owner ch ((?a + Suc j) mod 64)) [0..<?p - 1] = pending_queue owner ch'"
    by (simp add: pending_queue_alt P(2,3) sm mod_simps)
  finally show ?thesis .
qed

lemma pop_trace_queue:
  assumes "ring_inv ch" "length owner = 64" "list_all fits ops"
  shows "pop_trace ops c owner ch = queue_trace ops c (pending_queue owner ch)"
  using assms
proof (induction ops arbitrary: c owner ch)
  case Nil
  show ?case by simp
next
  case (Cons x ops)
  show ?case
  proof (cases x)
    case (Push buf)
    obtain i ch' where st: "rx_store ch buf = (i, ch')" by (cases "rx_store ch buf")
    from Cons.prems Push have len: "length buf \<le> 128"
      by (simp add: fits_def IPCF_BUF_LEN_def)
    have inv': "ring_inv ch'" by (rule rx_store_inv [OF Cons.prems(1) len st])
    have q: "pending_queue (owner[i := c]) ch' =
           (if length (pending_queue owner ch) = 64 then tl (pending_queue owner ch)
            else pending_queue owner ch) @ [(c, buf)]"
      by (rule rx_store_queue [OF Cons.prems(1) len Cons.prems(2) st])
    have "pop_trace ops (c + 1) (owner[i := c]) ch'
        = queue_trace ops (c + 1) (pending_queue (owner[i := c]) ch')"
      using Cons.prems by (intro Cons.IH inv') auto
    then show ?thesis using Push st q by simp
  next
    case Pop
    show ?thesis
    proof (cases "num_pending_msg ch = 0")
      case True
      then show ?thesis
        using Pop Cons.prems Cons.IH [of ch owner c]
        by (simp add: pop_none pending_queue_empty)
    next
      case False
      define ch' where "ch' = ch\<lparr>msg_processed := (msg_processed ch)[pending_idx ch := True],
               num_pending_msg := num_pending_msg ch - 1\<rparr>"
      have g: "get_next_pending_buff ch = (Some (pending_idx ch, msg_size ch ! pending_idx ch), ch')"
        unfolding ch'_def by (rule pop_some [OF Cons.prems(1) False])
      have inv': "ring_inv ch'" by (rule pop_inv(1) [OF Cons.prems(1) False ch'_def])
      have q: "pending_queue owner ch =
           (owner ! pending_idx ch, take (unat (msg_size ch ! pending_idx ch)) (chan_pool ch' ! pending_idx ch))
           # pending_queue owner ch'"
        by (rule pop_queue [OF Cons.prems(1) False ch'_def])
      have "pop_trace ops c owner ch' = queue_trace ops c (pending_queue owner ch')"
        using Cons.prems by (intro Cons.IH inv') auto
      then show ?thesis using Pop g q by simp
    qed
  qed
qed

lemma exec_ops_inv:
  assumes "ring_inv ch" "list_all fits ops"
  shows "ring_inv (exec_ops ops ch)"
  using assms
proof (induction ops arbitrary: ch)
  case Nil
  then show ?case by simp
next
  case (Cons x ops)
  show ?case
  proof (cases x)
    case (Push buf)
    from Cons.prems Push have len: "length buf \<le> 128"
      by (simp add: fits_def IPCF_BUF_LEN_def)
    have "ring_inv (snd (rx_store ch buf))"
      using rx_store_inv [OF Cons.prems(1) len] by (cases "rx_store ch buf") simp
    then show ?thesis using Push Cons.prems Cons.IH by simp
  next
    case Pop
    have "ring_inv (snd (get_next_pending_buff ch))"
    proof (cases "num_pending_msg ch = 0")
      case True
      then show ?thesis using Cons.prems(1) by (simp add: pop_none)
    next
      case False
      then show ?thesis
        using pop_some [OF Cons.prems(1) False] pop_inv(1) [OF Cons.prems(1) False refl]
        by simp
    qed
    then show ?thesis using Pop Cons.prems Cons.IH by simp
  qed
qed

lemma queue_trace_pushes:
  assumes "length q \<le> 64"
  shows "queue_trace (map Push msgs @ ops) c q =
         queue_trace ops (c + length msgs)
           (drop (length q + length msgs - 64) (q @ zip [c..<c + length msgs] msgs))"
  using assms
proof (induction msgs arbitrary: c q)
  case Nil
  then show ?case by simp
next
  case (Cons b bs)
  let ?q1 = "(if length q = 64 then tl q else q) @ [(c, b)]"
  let ?z' = "zip [c + 1..<c + 1 + length bs] bs"
  have "[c..<c + Suc (length bs)] = c # [Suc c..<c + Suc (length bs)]"
    by (rule upt_conv_Cons) simp
  then have z: "zip [c..<c + length (b # bs)] (b # bs) = (c, b) # ?z'"
    by (simp del: upt_Suc)
  have l1: "length ?q1 \<le> 64" using Cons.prems by (cases q) auto
  have d: "drop (length ?q1 + length bs - 64) (?q1 @ ?z')
         = drop (length q + length (b # bs) - 64) (q @ (c, b) # ?z')"
  proof (cases "length q = 64")
    case True
    then obtain x q' where q: "q = x # q'" by (cases q) auto
    with True show ?thesis by simp
  next
    case False
    then show ?thesis by simp
  qed
  have "queue_trace (map Push (b # bs) @ ops) c q = queue_trace (map Push bs @ ops) (c + 1) ?q1"
    by simp
  also have "\<dots> = queue_trace ops (c + 1 + length bs)
           (drop (length ?q1 + length bs - 64) (?q1 @ ?z'))"
    by (rule Cons.IH [OF l1])
  finally show ?case unfolding d z by simp
qed

lemma queue_trace_pops:
  "queue_trace (replicate m Pop) c q = map Some (take m q) @ replicate (m - length q) None"
proof (induction m arbitrary: q)
  case 0
  show ?case by simp
next
  case (Suc m)
  show ?case by (cases q) (simp_all add: Suc.IH)
qed

lemma queue_trace_tags:
  assumes "t \<in> set (map fst (successes (queue_trace ops c q)))"
  shows "t \<in> fst ` set q \<or> c \<le> t"
  using assms
proof (induction ops arbitrary: c q)
  case Nil
  then show ?case by simp
next
  case (Cons x ops)
  show ?case
  proof (cases x)
    case (Push buf)
    with Cons.prems Cons.IH [of "c + 1" "(if length q = 64 then tl q else q) @ [(c, buf)]"]
    show ?thesis by (cases q) (auto split: if_splits)
  next
    case Pop
    show ?thesis
    proof (cases q)
      case Nil
      with Pop Cons.prems Cons.IH [of c "[]"] show ?thesis by simp
    next
      case (Cons y q')
      with Pop Cons.prems Cons.IH [of c q'] show ?thesis by auto
    qed
  qed
qed

lemma queue_trace_distinct:
  assumes "distinct (map fst q)" "\<forall>x\<in>set q. fst x < c"
  shows "distinct (map fst (successes (queue_trace ops c q)))"
  using assms
proof (induction ops arbitrary: c q)
  case Nil
  show ?case by simp
next
  case (Cons x ops)
  show ?case
  proof (cases x)
    case (Push buf)
    let ?q1 = "(if length q = 64 then tl q else q) @ [(c, buf)]"
    have s: "set (if length q = 64 then tl q else q) \<subseteq> set q"
      by (cases q) auto
    have "distinct (map fst (if length q = 64 then tl q else q))"
      using Cons.prems(1) by (cases q) auto
    with s Cons.prems(2) have "distinct (map fst ?q1)" by fastforce
    moreover from s Cons.prems(2) have "\<forall>x\<in>set ?q1. fst x < c + 1" by fastforce
    ultimately have "distinct (map fst (successes (queue_trace ops (c + 1) ?q1)))"
      by (rule Cons.IH)
    then show ?thesis using Push by simp
  next
    case Pop
    show ?thesis
    proof (cases q)
      case Nil
      with Pop Cons.IH [of "[]" c] show ?thesis by simp
    next
      case (Cons y q')
      with Cons.prems have d: "distinct (map fst q')" and b: "\<forall>x\<in>set q'. fst x < c"
        and y: "fst y \<notin> fst ` set q'" "fst y < c"
        by auto
      have "fst y \<notin> set (map fst (successes (queue_trace ops c q')))"
        using queue_trace_tags [of "fst y" ops c q'] y by auto
      moreover have "distinct (map fst (successes (queue_trace ops c q')))"
        using d b by (rule Cons.IH)
      ultimately show ?thesis using Pop Cons by simp
    qed
  qed
qed

lemma pushes_fill:
  assumes "ring_inv ch" and "unat (free_buff_idx ch) = m" and "unat (num_pending_msg ch) = m"
    and "m + n \<le> 64" and "length buf \<le> 128"
  shows "ring_inv (exec_ops (replicate n (Push buf)) ch)
       \<and> unat (free_buff_idx (exec_ops (replicate n (Push buf)) ch)) = m + n
       \<and> unat (num_pending_msg (exec_ops (replicate n (Push buf)) ch)) = m + n"
  using assms(1-4)
proof (induction n arbitrary: ch m)
  case 0
  then show ?case by simp
next
  case (Suc n)
  obtain i ch' where st: "rx_store ch buf = (i, ch')" by (cases "rx_store ch buf")
  from Suc.prems have fb: "unat (free_buff_idx ch) \<le> 64" and pb: "unat (num_pending_msg ch) \<le> 64"
    by simp_all
  note S = rx_store_fields [OF fb pb st]
  have inv': "ring_inv ch'" by (rule rx_store_inv [OF Suc.prems(1) assms(5) st])
  have "unat (free_buff_idx ch') = m + 1" "unat (num_pending_msg ch') = m + 1"
    using S(1,2,3) Suc.prems by simp_all
  with inv' Suc.prems(4) Suc.IH [of ch' "m + 1"] st show ?case by simp
qed

lemma first_push:
  assumes wf: "wf_chan ch" and len: "length buf \<le> 128"
    and st: "rx_store (init_chan ch) buf = (i, ch1)"
  shows "i = 0"
    and "fst (get_next_pending_buff ch1) = Some (0, of_nat (length buf))"
    and "chan_pool ch1 ! 0 = buf @ drop (length buf) (chan_pool ch ! 0)"
    and "instance_id ch1 = instance_id ch" and "channel_id ch1 = channel_id ch"
proof -
  have inv: "ring_inv (init_chan ch)" by (rule init_chan_inv [OF wf])
  have fb: "unat (free_buff_idx (init_chan ch)) \<le> 64"
    and pb: "unat (num_pending_msg (init_chan ch)) \<le> 64"
    by (simp_all add: init_chan_fields)
  note S = rx_store_fields [OF fb pb st]
  note I = rx_store_idx [OF fb pb st]
  show i0: "i = 0" using S(1) by (simp add: init_chan_fields)
  have inv1: "ring_inv ch1" by (rule rx_store_inv [OF inv len st])
  have p1: "unat (num_pending_msg ch1) = 1" using S(3) by (simp add: init_chan_fields)
  then have p0: "num_pending_msg ch1 \<noteq> 0" by auto
  have a0: "pending_idx (init_chan ch) = 0"
    by (simp add: pending_idx_def init_chan_fields IPC_QUEUE_SIZE_def)
  have a1: "pending_idx ch1 = 0" using I(2) a0 by (simp add: init_chan_fields)
  have l: "length (msg_size (init_chan ch)) = 64"
    using inv by (simp add: ring_inv_def wf_chan_lengths)
  have lp: "length (chan_pool ch) = 64" using wf by (simp add: wf_chan_lengths)
  have "msg_size ch1 ! 0 = of_nat (length buf)" using S(4) i0 l by simp
  then show "fst (get_next_pending_buff ch1) = Some (0, of_nat (length buf))"
    using pop_some [OF inv1 p0] a1 by simp
  show "chan_pool ch1 ! 0 = buf @ drop (length buf) (chan_pool ch ! 0)"
    using S(6) i0 lp by (simp add: init_chan_fields)
  show "instance_id ch1 = instance_id ch" "channel_id ch1 = channel_id ch"
    using S(7,8) init_chan_ids [of ch] by simp_all
qed

lemma first_push_popped:
  assumes wf: "wf_chan ch" and len: "length buf \<le> 128"
    and st: "rx_store (init_chan ch) buf = (i, ch1)"
  shows "num_pending_msg ch1 = 1"
    and "num_pending_msg (snd (get_next_pending_buff ch1)) = 0"
proof -
  have inv: "ring_inv (init_chan ch)" by (rule init_chan_inv [OF wf])
  have fb: "unat (free_buff_idx (init_chan ch)) \<le> 64"
    and pb: "unat (num_pending_msg (init_chan ch)) \<le> 64"
    by (simp_all add: init_chan_fields)
  note S = rx_store_fields [OF fb pb st]
  have inv1: "ring_inv ch1" by (rule rx_store_inv [OF inv len st])
  have p1: "unat (num_pending_msg ch1) = 1" using S(3) by (simp add: init_chan_fields)
  have "num_pending_msg ch1 = of_nat (unat (num_pending_msg ch1))" by simp
  then show one: "num_pending_msg ch1 = 1" unfolding p1 by simp
  then have p0: "num_pending_msg ch1 \<noteq> 0" by simp
  show "num_pending_msg (snd (get_next_pending_buff ch1)) = 0"
    using pop_some [OF inv1 p0] one by simp
qed

lemma range_agrees:
  assumes inv: "ring_inv ch" and p: "unat (num_pending_msg ch) < 64" and i: "i < 64"
  shows "pending_slot ch i \<longleftrightarrow> in_claimed_range ch i"
proof -
  let ?f = "unat (free_buff_idx ch)" and ?p = "unat (num_pending_msg ch)"
  let ?a = "pending_idx ch"
  from inv have fb: "?f \<le> 64" and pb: "?p \<le> 64" by (auto simp: ring_inv_def)
  have a: "?a = (64 + ?f - ?p) mod 64" by (rule pending_idx_nat [OF fb pb])
  then have a64: "?a < 64" by simp
  have hi: "unat (free_buff_idx ch mod IPC_QUEUE_SIZE) = (?a + ?p) mod 64"
    using ring_sub_add [OF pb, of ?f] a by (simp add: unat_mod IPC_QUEUE_SIZE_def)
  have d: "(i + 64 - ?a) mod 64 = (if ?a \<le> i then i - ?a else i + 64 - ?a)"
    using a64 i by (auto simp: mod_if)
  have h: "(?a + ?p) mod 64 = (if ?a + ?p < 64 then ?a + ?p else ?a + ?p - 64)"
    using a64 p by (auto simp: mod_if)
  show ?thesis
    unfolding pending_slot_def in_claimed_range_def Let_def hi unat_IPC_QUEUE_SIZE d h
    using a64 p i by auto
qed

subsection \<open>User memory and the channel table\<close>

lemma copy_to_user_Some:
  assumes "copy_to_user umem off src = Some out"
  shows "take off out = take off umem"
    and "take (length src) (drop off out) = src"
    and "drop (off + length src) out = drop (off + length src) umem"
    and "length out = length umem"
  using assms by (auto simp: copy_to_user_def split: if_splits)

lemma get_device_idx_bound:
  assumes "get_device_idx st inst_id chan_id \<noteq> IPC_INVALID"
  shows "unat (get_device_idx st inst_id chan_id) < length (ipc_ch_descr st)"
proof (cases "ipc_ch_descr st")
  case Nil
  with assms show ?thesis by (simp add: get_device_idx_def)
next
  case (Cons a as)
  show ?thesis
  proof (cases as)
    case Nil
    with Cons assms show ?thesis
      by (auto simp: get_device_idx_def IPC_NUM_CHANNELS_def split: if_splits)
  next
    case (Cons b bs)
    with \<open>ipc_ch_descr st = a # as\<close> assms show ?thesis
      by (auto simp: get_device_idx_def IPC_NUM_CHANNELS_def numeral_2_eq_2 split: if_splits)
  qed
qed

lemma ipcf_read_ok:
  assumes pop: "get_next_pending_buff (ipc_ch_descr st ! dev) = (Some (pbuff, S), ch')"
    and ok: "ipcf_read st dev buffer len = (Inr n, st', out)"
  shows "n = (if framing_flag (ipc_ch_descr st ! dev) then 4 else 0) + unat S"
    and "take n out = (if framing_flag (ipc_ch_descr st ! dev) then be32_bytes S else [])
                       @ take (unat S) (chan_pool (ipc_ch_descr st ! dev) ! pbuff)"
    and "drop n out = drop n buffer"
proof -
  let ?ch = "ipc_ch_descr st ! dev"
  let ?payload = "take (unat S) (chan_pool ?ch ! pbuff)"
  have pool: "chan_pool ch' = chan_pool ?ch" using pop by (rule pop_pool)
  have fit: "unat S \<le> length (chan_pool ?ch ! pbuff)"
    using ok pop pool
    by (auto simp: ipcf_read_def Let_def pool_bytes_def split: option.splits if_splits)
  have lp: "length ?payload = unat S" using fit by simp
  have "n = (if framing_flag ?ch then 4 else 0) + unat S
      \<and> take n out = (if framing_flag ?ch then be32_bytes S else []) @ ?payload
      \<and> drop n out = drop n buffer"
  proof (cases "framing_flag ?ch")
    case True
    from ok pop True pool obtain b1 where
      c1: "copy_to_user buffer 0 (word_bytes (cpu_to_be32 S)) = Some b1"
      and c2: "copy_to_user b1 4 ?payload = Some out" and n: "n = 4 + unat S"
      by (auto simp: ipcf_read_def Let_def framing_flag_def pool_bytes_def
          split: option.splits if_splits)
    have l4: "length (be32_bytes S) = 4" by (simp add: be32_bytes_def)
    have "take 4 b1 = be32_bytes S"
      using copy_to_user_Some(2) [OF c1] l4 by (simp add: word_bytes_be)
    then have t4: "take 4 out = be32_bytes S"
      using copy_to_user_Some(1) [OF c2] by simp
    have tp: "take (unat S) (drop 4 out) = ?payload"
      using copy_to_user_Some(2) [OF c2] lp by simp
    have "take (4 + unat S) out = take 4 out @ take (unat S) (drop 4 out)"
      by (rule take_add)
    then have "take n out = be32_bytes S @ ?payload" using t4 tp n by simp
    moreover have "drop n out = drop n buffer"
      using copy_to_user_Some(3) [OF c2] copy_to_user_Some(3) [OF c1] lp l4 n
      by (simp add: word_bytes_be) (metis add.commute drop_drop)
    ultimately show ?thesis using True n by simp
  next
    case False
    from ok pop False pool have
      c2: "copy_to_user buffer 0 ?payload = Some out" and n: "n = unat S"
      by (auto simp: ipcf_read_def Let_def framing_flag_def pool_bytes_def
          split: option.splits if_splits)
    have "take (unat S) out = ?payload"
      using copy_to_user_Some(2) [OF c2] lp by simp
    moreover have "drop n out = drop n buffer"
      using copy_to_user_Some(3) [OF c2] lp n by simp
    ultimately show ?thesis using False n by simp
  qed
  then show "n = (if framing_flag ?ch then 4 else 0) + unat S"
    and "take n out = (if framing_flag ?ch then be32_bytes S else []) @ ?payload"
    and "drop n out = drop n buffer"
    by blast+
qed

lemma ipcf_read_room:
  assumes pop: "get_next_pending_buff (ipc_ch_descr st ! dev) = (Some (pbuff, S), ch')"
    and fit: "unat S \<le> length (chan_pool (ipc_ch_descr st ! dev) ! pbuff)"
    and room: "(if framing_flag (ipc_ch_descr st ! dev) then 4 else 0) + unat S \<le> length buffer"
  shows "fst (ipcf_read st dev buffer len)
           = Inr ((if framing_flag (ipc_ch_descr st ! dev) then 4 else 0) + unat S)"
proof -
  have pool: "chan_pool ch' = chan_pool (ipc_ch_descr st ! dev)" using pop by (rule pop_pool)
  show ?thesis
    using pop fit room pool
    by (auto simp: ipcf_read_def Let_def framing_flag_def copy_to_user_def word_bytes_def
        pool_bytes_def split: option.splits)
qed

lemma ipcf_read_no_room:
  assumes pop: "get_next_pending_buff (ipc_ch_descr st ! dev) = (Some (pbuff, S), ch')"
    and fit: "unat S \<le> length (chan_pool (ipc_ch_descr st ! dev) ! pbuff)"
    and nr: "length buffer < (if framing_flag (ipc_ch_descr st ! dev) then 4 else 0) + unat S"
  shows "fst (ipcf_read st dev buffer len) = Inl EFAULT"
    and "ipc_ch_descr (fst (snd (ipcf_read st dev buffer len))) = (ipc_ch_descr st)[dev := ch']"
proof -
  have pool: "chan_pool ch' = chan_pool (ipc_ch_descr st ! dev)" using pop by (rule pop_pool)
  show "fst (ipcf_read st dev buffer len) = Inl EFAULT"
    using pop fit nr pool
    by (auto simp: ipcf_read_def Let_def framing_flag_def copy_to_user_def word_bytes_def
        pool_bytes_def split: option.splits if_splits)
  show "ipc_ch_descr (fst (snd (ipcf_read st dev buffer len))) = (ipc_ch_descr st)[dev := ch']"
    using pop
    by (auto simp: ipcf_read_def Let_def split: option.splits if_splits)
qed

subsection \<open>The loaded module\<close>

lemma loaded_descr:
  "ipc_ch_descr loaded_state
     = [init_chan (zero_chan\<lparr>channel_id := 0\<rparr>), init_chan (zero_chan\<lparr>channel_id := 1\<rparr>)]"
  by (simp add: loaded_state_def init_state_vars_def IPC_NUM_CHANNELS_def numeral_2_eq_2)

lemma loaded_ids:
  "instance_id (ipc_ch_descr loaded_state ! 0) = 0" "channel_id (ipc_ch_descr loaded_state ! 0) = 0"
  "instance_id (ipc_ch_descr loaded_state ! 1) = 0" "channel_id (ipc_ch_descr loaded_state ! 1) = 1"
  by (simp_all add: loaded_descr init_chan_ids) (simp_all add: zero_chan_def)

lemma loaded_dev:
  "get_device_idx loaded_state 0 0 = 0" "get_device_idx loaded_state 0 1 = 1"
  using loaded_ids
  by (simp_all add: get_device_idx_def IPC_NUM_CHANNELS_def loaded_descr)

lemma wf_chan_ids: "wf_chan (ch\<lparr>channel_id := c\<rparr>) = wf_chan ch"
  by (simp add: wf_chan_def)

lemma rx_loaded:
  assumes "length buf \<le> 128"
  shows "ipc_ch_descr (data_chan_rx_cb loaded_state 0 0 buf err) ! 0
           = snd (rx_store (init_chan (zero_chan\<lparr>channel_id := 0\<rparr>)) buf)"
    and "ipc_ch_descr (data_chan_rx_cb loaded_state 0 1 buf err) ! 1
           = snd (rx_store (init_chan (zero_chan\<lparr>channel_id := 1\<rparr>)) buf)"
  using assms
  by (simp_all add: data_chan_rx_cb_def Let_def loaded_dev IPCF_BUF_LEN_def IPC_INVALID_def)
     (simp_all add: loaded_descr)

lemma rx_loaded_facts:
  assumes len: "length buf \<le> 128" and c: "c = 0 \<or> c = 1"
  defines "d \<equiv> ipc_ch_descr (data_chan_rx_cb loaded_state 0 (int c) buf 0) ! c"
  shows "fst (get_next_pending_buff d) = Some (0, of_nat (length buf))"
    and "chan_pool d ! 0 = buf @ replicate (128 - length buf) 0"
    and "instance_id d = 0" and "channel_id d = of_nat c"
proof -
  let ?z = "zero_chan\<lparr>channel_id := of_nat c\<rparr>"
  have d: "d = snd (rx_store (init_chan ?z) buf)"
    using c rx_loaded [OF len, of 0] by (auto simp: d_def)
  have wf: "wf_chan ?z" by (simp add: wf_chan_ids wf_zero_chan)
  have st: "rx_store (init_chan ?z) buf = (fst (rx_store (init_chan ?z) buf), d)"
    by (simp add: d)
  note F = first_push [OF wf len st]
  show "fst (get_next_pending_buff d) = Some (0, of_nat (length buf))" by (rule F(2))
  show "chan_pool d ! 0 = buf @ replicate (128 - length buf) 0"
    using F(3) by (simp add: zero_chan_def)
  show "instance_id d = 0" using F(4) by (simp add: zero_chan_def)
  show "channel_id d = of_nat c" using F(5) by simp
qed

lemma rx_cb_length:
  "length (ipc_ch_descr (data_chan_rx_cb st inst_id chan_id buf err)) = length (ipc_ch_descr st)"
  by (simp add: data_chan_rx_cb_def Let_def)

lemma framed_popped:
  "num_pending_msg (ipc_ch_descr framed_msg_state ! 1) = 1"
  "num_pending_msg (snd (get_next_pending_buff (ipc_ch_descr framed_msg_state ! 1))) = 0"
  "length (ipc_ch_descr framed_msg_state) = 2"
proof -
  let ?z = "zero_chan\<lparr>channel_id := 1\<rparr>"
  have d: "ipc_ch_descr framed_msg_state ! 1 = snd (rx_store (init_chan ?z) [1, 2, 3])"
    unfolding framed_msg_state_def by (rule rx_loaded(2)) simp
  have wf: "wf_chan ?z" by (simp add: wf_chan_ids wf_zero_chan)
  have st: "rx_store (init_chan ?z) [1, 2, 3]
      = (fst (rx_store (init_chan ?z) [1, 2, 3]), ipc_ch_descr framed_msg_state ! 1)"
    using d by simp
  note P = first_push_popped [OF wf _ st]
  show "num_pending_msg (ipc_ch_descr framed_msg_state ! 1) = 1" by (rule P) simp
  show "num_pending_msg (snd (get_next_pending_buff (ipc_ch_descr framed_msg_state ! 1))) = 0"
    by (rule P) simp
  show "length (ipc_ch_descr framed_msg_state) = 2"
    by (simp add: framed_msg_state_def rx_cb_length loaded_descr)
qed

section \<open>The properties\<close>

subsection \<open>Overflow of the round pool\<close>

text \<open>
  Claim C1. Take a descriptor in its reset state and push \<open>N + k\<close> messages, each of at most
  \<^verbatim>\<open>IPCF_BUF_LEN\<close> bytes, without popping (\<open>N\<close> is \<^verbatim>\<open>IPC_QUEUE_SIZE\<close>). The next \<open>N\<close> pops
  return the pushes number \<open>k\<close>, ..., \<open>N + k - 1\<close>, that is the \<open>N\<close> most recent messages, with
  their bytes and in the order of their arrival, and every further pop returns nothing: the \<open>k\<close>
  oldest messages are never returned. This holds for every \<open>k\<close>, in particular for \<open>k \<ge> 1\<close>.
\<close>

theorem capacity_bound:
  assumes "wf_chan ch"
    and "list_all (\<lambda>buf. length buf \<le> IPCF_BUF_LEN) msgs"
    and "length msgs = unat IPC_QUEUE_SIZE + k"
  shows "pop_results (map Push msgs @ replicate (unat IPC_QUEUE_SIZE + m) Pop) (init_chan ch)
       = map Some (drop k (zip [0..<length msgs] msgs)) @ replicate m None"
proof -
  let ?ops = "map Push msgs @ replicate (64 + m) Pop"
  have f: "list_all fits ?ops"
    using assms(2) by (simp add: list_all_iff fits_def)
  have "pop_results ?ops (init_chan ch) = queue_trace ?ops 0 []"
    unfolding pop_results_def
    using pop_trace_queue [OF init_chan_inv [OF assms(1)] _ f, of "replicate 64 0" 0]
    by (simp add: init_chan_queue unat_IPC_QUEUE_SIZE)
  also have "\<dots> = queue_trace (replicate (64 + m) Pop) (length msgs)
                   (drop k (zip [0..<length msgs] msgs))"
    using queue_trace_pushes [of "[]" msgs "replicate (64 + m) Pop" 0] assms(3)
    by (simp add: unat_IPC_QUEUE_SIZE)
  also have "\<dots> = map Some (drop k (zip [0..<length msgs] msgs)) @ replicate m None"
    using assms(3) by (simp add: queue_trace_pops unat_IPC_QUEUE_SIZE)
  finally show ?thesis by (simp add: unat_IPC_QUEUE_SIZE)
qed

theorem capacity_bound_witness:
  "wf_chan zero_chan
   \<and> list_all (\<lambda>buf. length buf \<le> IPCF_BUF_LEN) (map (\<lambda>n. [of_nat n :: byte]) [0..<66])
   \<and> length (map (\<lambda>n. [of_nat n :: byte]) [0..<66]) = unat IPC_QUEUE_SIZE + 2
   \<and> pop_results
        (map Push (map (\<lambda>n. [of_nat n]) [0..<66]) @ replicate (unat IPC_QUEUE_SIZE + 1) Pop)
        (init_chan zero_chan)
      = map Some (drop 2 (zip [0..<length (map (\<lambda>n. [of_nat n :: byte]) [0..<66])]
                            (map (\<lambda>n. [of_nat n]) [0..<66])))
        @ replicate 1 None"
proof -
  have h1: "wf_chan zero_chan" by (rule wf_zero_chan)
  have h2: "list_all (\<lambda>buf. length buf \<le> IPCF_BUF_LEN) (map (\<lambda>n. [of_nat n :: byte]) [0..<66])"
    by (simp add: list_all_iff IPCF_BUF_LEN_def)
  have h3: "length (map (\<lambda>n. [of_nat n :: byte]) [0..<66]) = unat IPC_QUEUE_SIZE + 2"
    by (simp add: IPC_QUEUE_SIZE_def)
  from h1 h2 h3 capacity_bound [OF h1 h2 h3, of 1] show ?thesis by blast
qed

subsection \<open>No message is delivered twice\<close>

text \<open>
  Claim C2. Run any sequence of pushes (of messages of at most \<^verbatim>\<open>IPCF_BUF_LEN\<close> bytes) and pops,
  one after the other, on a descriptor in its reset state. The numbers of the pushes that the
  successful pops return are pairwise distinct: no pushed message is returned by two pops.
\<close>

theorem no_double_delivery:
  assumes "wf_chan ch" and "list_all fits ops"
  shows "distinct (map fst (successes (pop_results ops (init_chan ch))))"
proof -
  have "pop_results ops (init_chan ch) = queue_trace ops 0 []"
    unfolding pop_results_def
    using pop_trace_queue [OF init_chan_inv [OF assms(1)] _ assms(2), of "replicate 64 0" 0]
    by (simp add: init_chan_queue unat_IPC_QUEUE_SIZE)
  then show ?thesis by (simp add: queue_trace_distinct)
qed

theorem no_double_delivery_witness:
  "wf_chan zero_chan \<and> list_all fits [Push [7], Push [7], Pop, Push [8], Pop, Pop, Pop]
   \<and> distinct (map fst (successes
        (pop_results [Push [7], Push [7], Pop, Push [8], Pop, Pop, Pop] (init_chan zero_chan))))"
proof -
  have h1: "wf_chan zero_chan" by (rule wf_zero_chan)
  have h2: "list_all fits [Push [7], Push [7], Pop, Push [8], Pop, Pop, Pop]"
    by (simp add: fits_def IPCF_BUF_LEN_def)
  from h1 h2 no_double_delivery [OF h1 h2] show ?thesis by blast
qed

subsection \<open>The invariant of a descriptor\<close>

text \<open>
  Claim C3, as the code satisfies it. In every state \<open>s\<close> that a sequence of pushes (of messages
  of at most \<^verbatim>\<open>IPCF_BUF_LEN\<close> bytes) and pops reaches from the reset state, \<^verbatim>\<open>num_pending_msg\<close> is
  at most \<open>N\<close>, and for every buffer \<open>i < N\<close> the flag \<^verbatim>\<open>msg_processed[i]\<close> is false exactly when
  \<open>i\<close> is one of the \<^verbatim>\<open>num_pending_msg\<close> buffers that follow
  \<open>(free_buff_idx - num_pending_msg) mod N\<close> going round the pool (\<open>pending_slot\<close>). As long as
  fewer than \<open>N\<close> messages are pending, these are the buffers of the half-open range of the
  specification, read round the pool.
\<close>

theorem ring_invariant:
  assumes "wf_chan ch" and "list_all fits ops" and "i < unat IPC_QUEUE_SIZE"
  shows "unat (num_pending_msg (exec_ops ops (init_chan ch))) \<le> unat IPC_QUEUE_SIZE
       \<and> (msg_processed (exec_ops ops (init_chan ch)) ! i
            \<longleftrightarrow> \<not> pending_slot (exec_ops ops (init_chan ch)) i)
       \<and> (unat (num_pending_msg (exec_ops ops (init_chan ch))) < unat IPC_QUEUE_SIZE \<longrightarrow>
            (pending_slot (exec_ops ops (init_chan ch)) i
               \<longleftrightarrow> in_claimed_range (exec_ops ops (init_chan ch)) i))"
proof -
  let ?s = "exec_ops ops (init_chan ch)"
  have inv: "ring_inv ?s"
    by (rule exec_ops_inv [OF init_chan_inv [OF assms(1)] assms(2)])
  then have a64: "pending_idx ?s < 64" by (simp add: ring_inv_def pending_idx_nat)
  let ?j = "(i + 64 - pending_idx ?s mod 64) mod 64"
  from assms(3) have "(pending_idx ?s + ?j) mod 64 = i"
    by (intro ring_back) (simp add: unat_IPC_QUEUE_SIZE)
  moreover have "msg_processed ?s ! ((pending_idx ?s + ?j) mod 64) = (unat (num_pending_msg ?s) \<le> ?j)"
    using inv by (simp add: ring_inv_def)
  ultimately have "msg_processed ?s ! i = (unat (num_pending_msg ?s) \<le> ?j)" by simp
  with a64 have "msg_processed ?s ! i \<longleftrightarrow> \<not> pending_slot ?s i"
    by (auto simp: pending_slot_def unat_IPC_QUEUE_SIZE)
  moreover have "unat (num_pending_msg ?s) \<le> unat IPC_QUEUE_SIZE"
    using inv by (simp add: ring_inv_def unat_IPC_QUEUE_SIZE)
  moreover have "pending_slot ?s i \<longleftrightarrow> in_claimed_range ?s i"
    if "unat (num_pending_msg ?s) < unat IPC_QUEUE_SIZE"
    using range_agrees [OF inv] that assms(3) by (simp add: unat_IPC_QUEUE_SIZE)
  ultimately show ?thesis by blast
qed

theorem ring_invariant_witness:
  "wf_chan zero_chan \<and> list_all fits [Push [1, 2], Pop, Push [3]] \<and> 0 < unat IPC_QUEUE_SIZE
   \<and> unat (num_pending_msg (exec_ops [Push [1, 2], Pop, Push [3]] (init_chan zero_chan)))
       \<le> unat IPC_QUEUE_SIZE
   \<and> (msg_processed (exec_ops [Push [1, 2], Pop, Push [3]] (init_chan zero_chan)) ! 0
        \<longleftrightarrow> \<not> pending_slot (exec_ops [Push [1, 2], Pop, Push [3]] (init_chan zero_chan)) 0)"
proof -
  have h1: "wf_chan zero_chan" by (rule wf_zero_chan)
  have h2: "list_all fits [Push [1, 2], Pop, Push [3]]"
    by (simp add: fits_def IPCF_BUF_LEN_def)
  have h3: "0 < unat IPC_QUEUE_SIZE" by (simp add: IPC_QUEUE_SIZE_def)
  from h1 h2 h3 ring_invariant [OF h1 h2 h3] show ?thesis by blast
qed

text \<open>
  The claim as it is worded fails when the pool is full. After 64 pushes and no pop,
  \<^verbatim>\<open>num_pending_msg\<close> is 64 and both ends of the range of the specification are 0, so the range
  is empty and buffer 0 lies outside it; yet buffer 0 is pending and its flag is false.
\<close>

theorem claimed_range_counterexample:
  "unat (num_pending_msg full_chan) = unat IPC_QUEUE_SIZE
   \<and> pending_idx full_chan = 0 \<and> unat (free_buff_idx full_chan mod IPC_QUEUE_SIZE) = 0
   \<and> \<not> in_claimed_range full_chan 0
   \<and> msg_processed full_chan ! 0 = False"
proof -
  have "ring_inv full_chan \<and> unat (free_buff_idx full_chan) = 0 + 64
      \<and> unat (num_pending_msg full_chan) = 0 + 64"
    unfolding full_chan_def
    by (rule pushes_fill [OF init_chan_inv [OF wf_zero_chan]]) (simp_all add: init_chan_fields)
  then have inv: "ring_inv full_chan" and f: "unat (free_buff_idx full_chan) = 64"
    and p: "unat (num_pending_msg full_chan) = 64"
    by simp_all
  have a: "pending_idx full_chan = 0"
    using pending_idx_nat [of full_chan] f p by simp
  have h: "unat (free_buff_idx full_chan mod IPC_QUEUE_SIZE) = 0"
    by (simp add: IPC_QUEUE_SIZE_def unat_mod f)
  have "msg_processed full_chan ! ((pending_idx full_chan + 0) mod 64)
      = (unat (num_pending_msg full_chan) \<le> 0)"
    using inv unfolding ring_inv_def by (metis zero_less_numeral)
  then have "msg_processed full_chan ! 0 = False" using a p by simp
  with a h p show ?thesis by (simp add: in_claimed_range_def unat_IPC_QUEUE_SIZE)
qed

subsection \<open>Popping an empty or drained descriptor\<close>

text \<open>
  Claim C8. In any state of a descriptor (the arrays and counters may hold anything), when
  \<^verbatim>\<open>num_pending_msg\<close> is 0, or the flag \<^verbatim>\<open>msg_processed\<close> of the oldest pending buffer is already
  true, \<^verbatim>\<open>get_next_pending_buff\<close> returns \<^verbatim>\<open>NULL\<close> and leaves the descriptor as it was; so do
  \<open>n\<close> such calls in a row, for every \<open>n\<close>.
\<close>

theorem empty_pop_no_change:
  assumes "num_pending_msg ch = 0 \<or> msg_processed ch ! pending_idx ch"
  shows "pop_n n ch = (replicate n None, ch)"
proof (induction n)
  case 0
  show ?case by simp
next
  case (Suc n)
  from assms have "get_next_pending_buff ch = (None, ch)"
    by (rule pop_nothing)
  with Suc show ?case by simp
qed

theorem empty_pop_no_change_witness:
  "(num_pending_msg (init_chan zero_chan) = 0
      \<or> msg_processed (init_chan zero_chan) ! pending_idx (init_chan zero_chan))
   \<and> pop_n 3 (init_chan zero_chan) = (replicate 3 None, init_chan zero_chan)"
proof -
  have h: "num_pending_msg (init_chan zero_chan) = 0
      \<or> msg_processed (init_chan zero_chan) ! pending_idx (init_chan zero_chan)"
    by (simp add: init_chan_fields)
  from h empty_pop_no_change [OF h, of 3] show ?thesis by blast
qed

subsection \<open>What a push does\<close>

text \<open>
  Claim C4, as the code satisfies it. Let \<^verbatim>\<open>free_buff_idx\<close> be at most \<open>N\<close> and
  \<^verbatim>\<open>num_pending_msg\<close> be less than \<open>2^32 - 1\<close>, as they are in every state reachable from the reset
  state, and let the message have at most \<^verbatim>\<open>IPCF_BUF_LEN\<close> bytes. Then a push writes the
  message at the start of buffer \<open>free_buff_idx mod N\<close>, records its size for that buffer,
  clears the buffer's processed flag, leaves \<^verbatim>\<open>free_buff_idx\<close> congruent modulo \<open>N\<close> to its old
  value plus one (the driver stores \<open>free_buff_idx mod N + 1\<close>, a value from 1 to \<open>N\<close>, and
  goes back to 0 at the start of the next push), and sets \<^verbatim>\<open>num_pending_msg\<close> to the minimum of
  \<open>N\<close> and its old value plus one; when \<^verbatim>\<open>num_pending_msg\<close> was \<open>N\<close> already, the buffer written
  is the oldest pending one. The function always returns a buffer: there is no error result.
\<close>

theorem push_effect:
  assumes wf: "wf_chan ch"
    and fb: "unat (free_buff_idx ch) \<le> unat IPC_QUEUE_SIZE"
    and pb: "num_pending_msg ch \<noteq> - 1"
    and len: "length buf \<le> IPCF_BUF_LEN"
    and st: "rx_store ch buf = (i, ch')"
  shows "i = unat (free_buff_idx ch) mod unat IPC_QUEUE_SIZE
       \<and> take (length buf) (chan_pool ch' ! i) = buf
       \<and> unat (msg_size ch' ! i) = length buf
       \<and> msg_processed ch' ! i = False
       \<and> unat (free_buff_idx ch') = unat (free_buff_idx ch) mod unat IPC_QUEUE_SIZE + 1
       \<and> unat (free_buff_idx ch') mod unat IPC_QUEUE_SIZE
           = (unat (free_buff_idx ch) + 1) mod unat IPC_QUEUE_SIZE
       \<and> unat (num_pending_msg ch') = min (unat IPC_QUEUE_SIZE) (unat (num_pending_msg ch) + 1)
       \<and> (unat (num_pending_msg ch) = unat IPC_QUEUE_SIZE \<longrightarrow> i = pending_idx ch)"
proof -
  let ?f = "free_buff_idx ch"
  let ?f1 = "wrapped_idx ch"
  from fb have fb': "unat ?f \<le> 64" by (simp add: unat_IPC_QUEUE_SIZE)
  from len have len': "length buf \<le> 128" by (simp add: IPCF_BUF_LEN_def)
  have f1: "unat ?f1 = unat ?f mod 64"
    using fb' by (auto simp: wrapped_idx_def IPC_QUEUE_SIZE_def word_le_nat_alt)
  have f2: "unat (?f1 + 1) = unat ?f mod 64 + 1"
    using fb' by (auto simp: wrapped_idx_def IPC_QUEUE_SIZE_def word_le_nat_alt unat_word_ariths)
  from st have i: "i = unat ?f1"
    and ch': "ch' = ch\<lparr>free_buff_idx := ?f1 + 1,
             num_pending_msg := min IPC_QUEUE_SIZE (num_pending_msg ch + 1),
             msg_size := (msg_size ch)[unat ?f1 := of_nat (length buf)],
             msg_processed := (msg_processed ch)[unat ?f1 := False],
             chan_pool := (chan_pool ch)[unat ?f1 := buf @ drop (length buf) (chan_pool ch ! unat ?f1)]\<rparr>"
    unfolding rx_store_unfold Let_def by auto
  have i64: "i < 64" using i f1 by simp
  have c1: "i = unat ?f mod unat IPC_QUEUE_SIZE"
    using i f1 by (simp add: unat_IPC_QUEUE_SIZE)
  have c2: "take (length buf) (chan_pool ch' ! i) = buf"
    using i64 wf by (simp add: ch' i [symmetric] wf_chan_lengths)
  have c3: "unat (msg_size ch' ! i) = length buf"
    using i64 wf len' by (simp add: ch' i [symmetric] wf_chan_lengths unat_of_nat_len)
  have c4: "msg_processed ch' ! i = False"
    using i64 wf by (simp add: ch' i [symmetric] wf_chan_lengths)
  have c5: "unat (free_buff_idx ch') mod unat IPC_QUEUE_SIZE
           = (unat ?f + 1) mod unat IPC_QUEUE_SIZE"
    using f2 by (simp add: ch' unat_IPC_QUEUE_SIZE mod_simps)
  have c5': "unat (free_buff_idx ch') = unat ?f mod unat IPC_QUEUE_SIZE + 1"
    using f2 by (simp add: ch' unat_IPC_QUEUE_SIZE)
  have c6: "unat (num_pending_msg ch') = min (unat IPC_QUEUE_SIZE) (unat (num_pending_msg ch) + 1)"
    using unat_min_succ [OF pb] by (simp add: ch' unat_IPC_QUEUE_SIZE)
  have c7: "i = pending_idx ch" if "unat (num_pending_msg ch) = unat IPC_QUEUE_SIZE"
    using that pending_idx_nat [OF fb'] i f1 by (simp add: unat_IPC_QUEUE_SIZE)
  from c1 c2 c3 c4 c5 c5' c6 c7 show ?thesis by blast
qed

theorem push_effect_witness:
  "wf_chan full_chan \<and> unat (free_buff_idx full_chan) \<le> unat IPC_QUEUE_SIZE
   \<and> num_pending_msg full_chan \<noteq> - 1 \<and> length [0x42 :: byte, 0x43] \<le> IPCF_BUF_LEN
   \<and> unat (num_pending_msg full_chan) = unat IPC_QUEUE_SIZE
   \<and> fst (rx_store full_chan [0x42, 0x43]) = unat (free_buff_idx full_chan) mod unat IPC_QUEUE_SIZE
   \<and> fst (rx_store full_chan [0x42, 0x43]) = pending_idx full_chan
   \<and> take (length [0x42 :: byte, 0x43])
        (chan_pool (snd (rx_store full_chan [0x42, 0x43])) ! fst (rx_store full_chan [0x42, 0x43]))
      = [0x42, 0x43]
   \<and> unat (num_pending_msg (snd (rx_store full_chan [0x42, 0x43])))
      = min (unat IPC_QUEUE_SIZE) (unat (num_pending_msg full_chan) + 1)"
proof -
  have "ring_inv full_chan \<and> unat (free_buff_idx full_chan) = 0 + 64
      \<and> unat (num_pending_msg full_chan) = 0 + 64"
    unfolding full_chan_def
    by (rule pushes_fill [OF init_chan_inv [OF wf_zero_chan]]) (simp_all add: init_chan_fields)
  then have h1: "wf_chan full_chan"
    and h2: "unat (free_buff_idx full_chan) \<le> unat IPC_QUEUE_SIZE"
    and p: "unat (num_pending_msg full_chan) = unat IPC_QUEUE_SIZE"
    by (simp_all add: ring_inv_def unat_IPC_QUEUE_SIZE)
  have h3: "num_pending_msg full_chan \<noteq> - 1"
  proof
    assume "num_pending_msg full_chan = - 1"
    then have "unat (num_pending_msg full_chan) = unat (- 1 :: 32 word)" by simp
    with p show False by (simp add: unat_IPC_QUEUE_SIZE unsigned_minus_1_eq_mask mask_eq_exp_minus_1)
  qed
  have h4: "length [0x42 :: byte, 0x43] \<le> IPCF_BUF_LEN" by (simp add: IPCF_BUF_LEN_def)
  have h5: "rx_store full_chan [0x42, 0x43]
      = (fst (rx_store full_chan [0x42, 0x43]), snd (rx_store full_chan [0x42, 0x43]))"
    by simp
  from h1 h2 h3 h4 p push_effect [OF h1 h2 h3 h4 h5] show ?thesis by blast
qed

text \<open>
  The claim as it is worded fails in two ways. First, \<^verbatim>\<open>free_buff_idx\<close> is not always the index
  of a buffer: after 64 pushes it is 64, and the next push writes buffer 0 and leaves it at 1.
  Second, outside the range the driver keeps its counters in, the buffer written is not
  \<^verbatim>\<open>free_buff_idx\<close> modulo \<open>N\<close> either: with \<^verbatim>\<open>free_buff_idx = 100\<close> and
  \<^verbatim>\<open>num_pending_msg = 0xFFFFFFFF\<close> the push writes buffer 0, not buffer \<open>100 mod 64 = 36\<close>, which
  keeps its contents; it leaves \<^verbatim>\<open>free_buff_idx\<close> at 1, not at a value congruent to 101; and
  \<^verbatim>\<open>num_pending_msg\<close> wraps to 0 instead of saturating at 64.
\<close>

theorem push_effect_counterexample:
  "unat (free_buff_idx full_chan) = 64
   \<and> fst (rx_store full_chan [0x42]) = 0
   \<and> unat (free_buff_idx (snd (rx_store full_chan [0x42]))) = 1
   \<and> unat (free_buff_idx bad_chan) = 100
   \<and> fst (rx_store bad_chan [0x41]) = 0
   \<and> unat (free_buff_idx bad_chan) mod unat IPC_QUEUE_SIZE = 36
   \<and> chan_pool (snd (rx_store bad_chan [0x41])) ! 36 = chan_pool bad_chan ! 36
   \<and> unat (free_buff_idx (snd (rx_store bad_chan [0x41]))) = 1
   \<and> (unat (free_buff_idx bad_chan) + 1) mod unat IPC_QUEUE_SIZE = 37
   \<and> unat (num_pending_msg bad_chan) = 4294967295
   \<and> unat (num_pending_msg (snd (rx_store bad_chan [0x41]))) = 0"
proof -
  have "ring_inv full_chan \<and> unat (free_buff_idx full_chan) = 0 + 64
      \<and> unat (num_pending_msg full_chan) = 0 + 64"
    unfolding full_chan_def
    by (rule pushes_fill [OF init_chan_inv [OF wf_zero_chan]]) (simp_all add: init_chan_fields)
  then have f: "unat (free_buff_idx full_chan) = 64" and p: "unat (num_pending_msg full_chan) = 64"
    by simp_all
  have st: "rx_store full_chan [0x42]
      = (fst (rx_store full_chan [0x42]), snd (rx_store full_chan [0x42]))"
    by simp
  have "fst (rx_store full_chan [0x42]) = 0"
    "unat (free_buff_idx (snd (rx_store full_chan [0x42]))) = 1"
    using rx_store_fields(1,2) [OF _ _ st] f p by simp_all
  moreover have "unat (free_buff_idx bad_chan) = 100
   \<and> fst (rx_store bad_chan [0x41]) = 0
   \<and> unat (free_buff_idx bad_chan) mod unat IPC_QUEUE_SIZE = 36
   \<and> chan_pool (snd (rx_store bad_chan [0x41])) ! 36 = chan_pool bad_chan ! 36
   \<and> unat (free_buff_idx (snd (rx_store bad_chan [0x41]))) = 1
   \<and> (unat (free_buff_idx bad_chan) + 1) mod unat IPC_QUEUE_SIZE = 37
   \<and> unat (num_pending_msg bad_chan) = 4294967295
   \<and> unat (num_pending_msg (snd (rx_store bad_chan [0x41]))) = 0"
    by (simp add: rx_store_unfold wrapped_idx_def bad_chan_def zero_chan_def IPC_QUEUE_SIZE_def)
  ultimately show ?thesis using f by blast
qed

subsection \<open>The receive callback\<close>

text \<open>
  Claim C6. Every call of \<^verbatim>\<open>data_chan_rx_cb\<close>, whether the message is stored, is too large or
  names an unknown channel, calls \<^verbatim>\<open>ipc_shm_release_buf\<close> exactly once, for the instance, the
  channel and the buffer it was given.
\<close>

theorem release_once:
  "release_calls (data_chan_rx_cb st inst_id chan_id buf err)
     = release_calls st @ [(inst_id, chan_id, buf)]"
  by (simp add: data_chan_rx_cb_def Let_def)

text \<open>
  Claim C7, as the code satisfies it. A call of \<^verbatim>\<open>data_chan_rx_cb\<close> with a message of more than
  \<^verbatim>\<open>IPCF_BUF_LEN\<close> bytes changes no descriptor and logs that the data does not fit (followed only
  by the report of a failed release, if the release fails). A call with a message of exactly
  \<^verbatim>\<open>IPCF_BUF_LEN\<close> bytes passes the test on the size, and what happens next depends on the
  channel. If \<^verbatim>\<open>get_device_idx\<close> finds it, the message is pushed on the descriptor of the
  channel, whose buffer then holds exactly the bytes of the message, and nothing is logged about
  it. If \<^verbatim>\<open>get_device_idx\<close> does not find it, no descriptor changes and the unknown device is
  logged.
\<close>

theorem oversized_rejected:
  "(IPCF_BUF_LEN < length buf \<longrightarrow>
      ipc_ch_descr (data_chan_rx_cb st inst_id chan_id buf err) = ipc_ch_descr st
      \<and> printk_log (data_chan_rx_cb st inst_id chan_id buf err)
          = printk_log st @ Data_does_not_fit inst_id chan_id (length buf)
              # (if err \<noteq> 0 then [Release_failed inst_id chan_id err] else []))
   \<and> (length buf = IPCF_BUF_LEN \<and> get_device_idx st inst_id (of_int chan_id) = dev_id
        \<and> dev_id \<noteq> IPC_INVALID \<and> wf_chan (ipc_ch_descr st ! unat dev_id) \<longrightarrow>
      ipc_ch_descr (data_chan_rx_cb st inst_id chan_id buf err)
        = (ipc_ch_descr st)[unat dev_id := snd (rx_store (ipc_ch_descr st ! unat dev_id) buf)]
      \<and> chan_pool (ipc_ch_descr (data_chan_rx_cb st inst_id chan_id buf err) ! unat dev_id)
           ! fst (rx_store (ipc_ch_descr st ! unat dev_id) buf) = buf
      \<and> printk_log (data_chan_rx_cb st inst_id chan_id buf err)
          = printk_log st @ (if err \<noteq> 0 then [Release_failed inst_id chan_id err] else []))
   \<and> (length buf = IPCF_BUF_LEN \<and> get_device_idx st inst_id (of_int chan_id) = IPC_INVALID \<longrightarrow>
      ipc_ch_descr (data_chan_rx_cb st inst_id chan_id buf err) = ipc_ch_descr st
      \<and> printk_log (data_chan_rx_cb st inst_id chan_id buf err)
          = printk_log st @ Unknown_device inst_id chan_id
              # (if err \<noteq> 0 then [Release_failed inst_id chan_id err] else []))"
proof -
  have unknown: "ipc_ch_descr (data_chan_rx_cb st inst_id chan_id buf err) = ipc_ch_descr st
      \<and> printk_log (data_chan_rx_cb st inst_id chan_id buf err)
          = printk_log st @ Unknown_device inst_id chan_id
              # (if err \<noteq> 0 then [Release_failed inst_id chan_id err] else [])"
    if "length buf = IPCF_BUF_LEN" "get_device_idx st inst_id (of_int chan_id) = IPC_INVALID"
    using that by (simp add: data_chan_rx_cb_def Let_def)
  have big: "ipc_ch_descr (data_chan_rx_cb st inst_id chan_id buf err) = ipc_ch_descr st
      \<and> printk_log (data_chan_rx_cb st inst_id chan_id buf err)
          = printk_log st @ Data_does_not_fit inst_id chan_id (length buf)
              # (if err \<noteq> 0 then [Release_failed inst_id chan_id err] else [])"
    if "IPCF_BUF_LEN < length buf"
    using that by (simp add: data_chan_rx_cb_def Let_def)
  have eq: "ipc_ch_descr (data_chan_rx_cb st inst_id chan_id buf err)
        = (ipc_ch_descr st)[unat dev_id := snd (rx_store (ipc_ch_descr st ! unat dev_id) buf)]
      \<and> chan_pool (ipc_ch_descr (data_chan_rx_cb st inst_id chan_id buf err) ! unat dev_id)
           ! fst (rx_store (ipc_ch_descr st ! unat dev_id) buf) = buf
      \<and> printk_log (data_chan_rx_cb st inst_id chan_id buf err)
          = printk_log st @ (if err \<noteq> 0 then [Release_failed inst_id chan_id err] else [])"
    if l: "length buf = IPCF_BUF_LEN" and d: "get_device_idx st inst_id (of_int chan_id) = dev_id"
      and v: "dev_id \<noteq> IPC_INVALID" and wf: "wf_chan (ipc_ch_descr st ! unat dev_id)"
  proof -
    let ?d = "ipc_ch_descr st ! unat dev_id"
    have b: "unat dev_id < length (ipc_ch_descr st)"
      using get_device_idx_bound [of st inst_id "of_int chan_id"] d v by simp
    have e1: "ipc_ch_descr (data_chan_rx_cb st inst_id chan_id buf err)
        = (ipc_ch_descr st)[unat dev_id := snd (rx_store ?d buf)]"
      using l d v by (auto simp: data_chan_rx_cb_def Let_def)
    have e3: "printk_log (data_chan_rx_cb st inst_id chan_id buf err)
          = printk_log st @ (if err \<noteq> 0 then [Release_failed inst_id chan_id err] else [])"
      using l d v by (auto simp: data_chan_rx_cb_def Let_def)
    have i64: "fst (rx_store ?d buf) < 64"
      by (simp add: rx_store_unfold Let_def wrapped_idx_less)
    have "chan_pool (snd (rx_store ?d buf)) ! fst (rx_store ?d buf) = buf"
      using i64 wf l
      by (simp add: rx_store_unfold Let_def wf_chan_lengths IPCF_BUF_LEN_def)
    with e1 e3 b show ?thesis by simp
  qed
  from big eq unknown show ?thesis by blast
qed

theorem oversized_rejected_witness:
  "IPCF_BUF_LEN < length (replicate 129 (0x55 :: byte))
   \<and> ipc_ch_descr (data_chan_rx_cb loaded_state 0 1 (replicate 129 0x55) 0)
       = ipc_ch_descr loaded_state
   \<and> printk_log (data_chan_rx_cb loaded_state 0 1 (replicate 129 0x55) 0)
       = [Data_does_not_fit 0 1 129]
   \<and> length (replicate 128 (0x55 :: byte)) = IPCF_BUF_LEN
   \<and> get_device_idx loaded_state 0 (of_int 1) = 1 \<and> (1 :: 8 word) \<noteq> IPC_INVALID
   \<and> wf_chan (ipc_ch_descr loaded_state ! unat (1 :: 8 word))
   \<and> chan_pool (ipc_ch_descr (data_chan_rx_cb loaded_state 0 1 (replicate 128 0x55) 0)
                  ! unat (1 :: 8 word))
        ! fst (rx_store (ipc_ch_descr loaded_state ! unat (1 :: 8 word)) (replicate 128 0x55))
       = replicate 128 0x55
   \<and> printk_log (data_chan_rx_cb loaded_state 0 1 (replicate 128 0x55) 0) = []
   \<and> get_device_idx loaded_state 0 (of_int 5) = IPC_INVALID
   \<and> ipc_ch_descr (data_chan_rx_cb loaded_state 0 5 (replicate 128 0x55) 7)
       = ipc_ch_descr loaded_state"
proof -
  have h1: "IPCF_BUF_LEN < length (replicate 129 (0x55 :: byte))"
    by (simp add: IPCF_BUF_LEN_def)
  have h2: "length (replicate 128 (0x55 :: byte)) = IPCF_BUF_LEN"
    by (simp add: IPCF_BUF_LEN_def)
  have h3: "get_device_idx loaded_state 0 (of_int 1) = 1" by (simp add: loaded_dev)
  have h4: "(1 :: 8 word) \<noteq> IPC_INVALID" by (simp add: IPC_INVALID_def)
  have "ring_inv (init_chan (zero_chan\<lparr>channel_id := 1\<rparr>))"
    by (rule init_chan_inv) (simp add: wf_chan_ids wf_zero_chan)
  then have h5: "wf_chan (ipc_ch_descr loaded_state ! unat (1 :: 8 word))"
    by (simp add: loaded_descr ring_inv_def)
  have l0: "printk_log loaded_state = []"
    by (simp add: loaded_state_def init_state_vars_def)
  note A = oversized_rejected [where buf = "replicate 129 0x55" and st = loaded_state
      and inst_id = 0 and chan_id = 1 and err = 0 and dev_id = 1]
  note B = oversized_rejected [where buf = "replicate 128 0x55" and st = loaded_state
      and inst_id = 0 and chan_id = 1 and err = 0 and dev_id = 1]
  from A h1 have a1: "ipc_ch_descr (data_chan_rx_cb loaded_state 0 1 (replicate 129 0x55) 0)
       = ipc_ch_descr loaded_state"
    by blast
  from A h1 have "printk_log (data_chan_rx_cb loaded_state 0 1 (replicate 129 0x55) 0)
          = printk_log loaded_state @ Data_does_not_fit 0 1 (length (replicate 129 (0x55 :: byte)))
              # (if (0 :: int) \<noteq> 0 then [Release_failed 0 1 0] else [])"
    by blast
  then have a2: "printk_log (data_chan_rx_cb loaded_state 0 1 (replicate 129 0x55) 0)
       = [Data_does_not_fit 0 1 129]"
    by (simp add: l0)
  from B h2 h3 h4 h5 have b1: "chan_pool (ipc_ch_descr (data_chan_rx_cb loaded_state 0 1 (replicate 128 0x55) 0)
                  ! unat (1 :: 8 word))
        ! fst (rx_store (ipc_ch_descr loaded_state ! unat (1 :: 8 word)) (replicate 128 0x55))
       = replicate 128 0x55"
    by blast
  from B h2 h3 h4 h5 have "printk_log (data_chan_rx_cb loaded_state 0 1 (replicate 128 0x55) 0)
          = printk_log loaded_state @ (if (0 :: int) \<noteq> 0 then [Release_failed 0 1 0] else [])"
    by blast
  then have b2: "printk_log (data_chan_rx_cb loaded_state 0 1 (replicate 128 0x55) 0) = []"
    by (simp add: l0)
  have h6: "get_device_idx loaded_state 0 (of_int 5) = IPC_INVALID"
    using loaded_ids by (simp add: get_device_idx_def IPC_NUM_CHANNELS_def loaded_descr)
  note C = oversized_rejected [where buf = "replicate 128 0x55" and st = loaded_state
      and inst_id = 0 and chan_id = 5 and err = 7 and dev_id = 1]
  from C h2 h6 have c1: "ipc_ch_descr (data_chan_rx_cb loaded_state 0 5 (replicate 128 0x55) 7)
       = ipc_ch_descr loaded_state"
    by blast
  from h1 h2 h3 h4 h5 h6 a1 a2 b1 b2 c1 show ?thesis by blast
qed

text \<open>
  The claim as it is worded, that a call with a message of exactly \<^verbatim>\<open>IPCF_BUF_LEN\<close> bytes is
  buffered, fails for a channel the module does not know: on the loaded module, a message of
  128 bytes for channel 5 of instance 0 leaves both descriptors as they were and is logged as
  coming from an unknown device.
\<close>

theorem exact_size_counterexample:
  "length (replicate 128 (0x55 :: byte)) = IPCF_BUF_LEN
   \<and> ipc_ch_descr (data_chan_rx_cb loaded_state 0 5 (replicate 128 0x55) 0)
       = ipc_ch_descr loaded_state
   \<and> printk_log (data_chan_rx_cb loaded_state 0 5 (replicate 128 0x55) 0) = [Unknown_device 0 5]"
proof -
  have d: "get_device_idx loaded_state 0 (of_int 5) = IPC_INVALID"
    using loaded_ids by (simp add: get_device_idx_def IPC_NUM_CHANNELS_def loaded_descr)
  have l0: "printk_log loaded_state = []"
    by (simp add: loaded_state_def init_state_vars_def)
  show ?thesis
    using d by (simp add: data_chan_rx_cb_def Let_def IPCF_BUF_LEN_def l0)
qed

subsection \<open>What a read delivers\<close>

text \<open>
  Claim C5. Let a read pop a message of recorded size \<open>S\<close> from buffer \<open>pbuff\<close> and let the read
  succeed with count \<open>n\<close>, leaving the user memory as \<open>out\<close>. On a channel whose framing flag is
  set, \<open>n = 4 + S\<close> and the first \<open>n\<close> bytes of \<open>out\<close> are the four bytes of \<open>S\<close> in big-endian
  order followed by the \<open>S\<close> bytes stored in the buffer. On a channel whose flag is clear,
  \<open>n = S\<close> and the first \<open>n\<close> bytes of \<open>out\<close> are the \<open>S\<close> stored bytes. In both cases the user
  memory beyond the first \<open>n\<close> bytes is untouched.
\<close>

theorem read_framing:
  assumes "get_next_pending_buff (ipc_ch_descr st ! dev) = (Some (pbuff, S), ch')"
    and "ipcf_read st dev buffer len = (Inr n, st', out)"
  shows "(framing_flag (ipc_ch_descr st ! dev) \<longrightarrow>
            n = 4 + unat S
            \<and> take n out = be32_bytes S @ take (unat S) (chan_pool (ipc_ch_descr st ! dev) ! pbuff))
       \<and> (\<not> framing_flag (ipc_ch_descr st ! dev) \<longrightarrow>
            n = unat S
            \<and> take n out = take (unat S) (chan_pool (ipc_ch_descr st ! dev) ! pbuff))
       \<and> drop n out = drop n buffer"
  using ipcf_read_ok [OF assms]
  by (cases "framing_flag (ipc_ch_descr st ! dev)") simp_all

theorem read_framing_witness:
  "framing_flag (ipc_ch_descr framed_msg_state ! 1)
   \<and> fst (get_next_pending_buff (ipc_ch_descr framed_msg_state ! 1)) = Some (0, 3)
   \<and> fst (ipcf_read framed_msg_state 1 (replicate 16 0) 16) = Inr 7
   \<and> take 7 (snd (snd (ipcf_read framed_msg_state 1 (replicate 16 0) 16))) = [0, 0, 0, 3, 1, 2, 3]
   \<and> \<not> framing_flag (ipc_ch_descr raw_msg_state ! 0)
   \<and> fst (get_next_pending_buff (ipc_ch_descr raw_msg_state ! 0)) = Some (0, 2)
   \<and> fst (ipcf_read raw_msg_state 0 (replicate 16 0) 16) = Inr 2
   \<and> take 2 (snd (snd (ipcf_read raw_msg_state 0 (replicate 16 0) 16))) = [9, 8]"
proof -
  let ?d1 = "ipc_ch_descr framed_msg_state ! 1" and ?d0 = "ipc_ch_descr raw_msg_state ! 0"
  let ?r1 = "ipcf_read framed_msg_state 1 (replicate 16 0) 16"
  let ?r0 = "ipcf_read raw_msg_state 0 (replicate 16 0) 16"
  note F1 = rx_loaded_facts [of "[1, 2, 3]" 1, simplified, folded framed_msg_state_def]
  note F0 = rx_loaded_facts [of "[9, 8]" 0, simplified, folded raw_msg_state_def]
  have fl1: "framing_flag ?d1"
    by (simp add: framing_flag_def inst_descr_def F1)
  have fl0: "\<not> framing_flag ?d0"
    by (simp add: framing_flag_def inst_descr_def F0)
  have p1: "get_next_pending_buff ?d1 = (Some (0, 3), snd (get_next_pending_buff ?d1))"
    using F1(1) by (simp add: prod_eq_iff)
  have p0: "get_next_pending_buff ?d0 = (Some (0, 2), snd (get_next_pending_buff ?d0))"
    using F0(1) by (simp add: prod_eq_iff)
  have f1: "unat (3 :: 32 word) \<le> length (chan_pool ?d1 ! 0)" by (simp add: F1)
  have f0: "unat (2 :: 32 word) \<le> length (chan_pool ?d0 ! 0)" by (simp add: F0)
  have r1: "fst ?r1 = Inr 7"
    using ipcf_read_room [OF p1 f1, of "replicate 16 0" 16] fl1 by simp
  then have o1: "?r1 = (Inr 7, fst (snd ?r1), snd (snd ?r1))" by (simp add: prod_eq_iff)
  have r0: "fst ?r0 = Inr 2"
    using ipcf_read_room [OF p0 f0, of "replicate 16 0" 16] fl0 by simp
  then have o0: "?r0 = (Inr 2, fst (snd ?r0), snd (snd ?r0))" by (simp add: prod_eq_iff)
  have "take 7 (snd (snd ?r1)) = [0, 0, 0, 3, 1, 2, 3]"
    using read_framing [OF p1 o1] fl1 by (simp add: F1 be32_bytes_def)
  moreover have "take 2 (snd (snd ?r0)) = [9, 8]"
    using read_framing [OF p0 o0] fl0 by (simp add: F0)
  ultimately show ?thesis using fl1 fl0 F1(1) F0(1) r1 r0 by simp
qed

subsection \<open>A read does not look at the length it is given\<close>

text \<open>
  Claim C10, as the code satisfies it. \<^verbatim>\<open>ipcf_read\<close> gives the same result whatever \<^verbatim>\<open>length\<close>
  it is called with. Let the descriptor have a pending unprocessed message (the pop returns
  buffer \<open>pbuff\<close> with recorded size \<open>S\<close>, at most the length of a buffer). When the user memory
  at the address of the call can take \<open>S\<close> bytes, plus 4 on a channel with the framing flag, the
  call returns that count and delivers the optional prefix and all \<open>S\<close> bytes of the message,
  also when \<^verbatim>\<open>length\<close> is smaller than that. When the user memory cannot take them, the call
  returns \<^verbatim>\<open>-EFAULT\<close>; the message has been popped all the same and is lost.
\<close>

theorem read_ignores_length:
  "ipcf_read st dev buffer len = ipcf_read st dev buffer len'
   \<and> (get_next_pending_buff (ipc_ch_descr st ! dev) = (Some (pbuff, S), ch')
        \<and> unat S \<le> length (chan_pool (ipc_ch_descr st ! dev) ! pbuff)
        \<and> (if framing_flag (ipc_ch_descr st ! dev) then 4 else 0) + unat S \<le> length buffer
      \<longrightarrow>
        fst (ipcf_read st dev buffer len)
          = Inr ((if framing_flag (ipc_ch_descr st ! dev) then 4 else 0) + unat S)
        \<and> take ((if framing_flag (ipc_ch_descr st ! dev) then 4 else 0) + unat S)
               (snd (snd (ipcf_read st dev buffer len)))
            = (if framing_flag (ipc_ch_descr st ! dev) then be32_bytes S else [])
              @ take (unat S) (chan_pool (ipc_ch_descr st ! dev) ! pbuff))
   \<and> (get_next_pending_buff (ipc_ch_descr st ! dev) = (Some (pbuff, S), ch')
        \<and> unat S \<le> length (chan_pool (ipc_ch_descr st ! dev) ! pbuff)
        \<and> length buffer < (if framing_flag (ipc_ch_descr st ! dev) then 4 else 0) + unat S
      \<longrightarrow>
        fst (ipcf_read st dev buffer len) = Inl EFAULT
        \<and> ipc_ch_descr (fst (snd (ipcf_read st dev buffer len))) = (ipc_ch_descr st)[dev := ch'])"
proof -
  let ?n = "(if framing_flag (ipc_ch_descr st ! dev) then 4 else 0) + unat S"
  let ?r = "ipcf_read st dev buffer len"
  have e: "ipcf_read st dev buffer len = ipcf_read st dev buffer len'"
    by (simp add: ipcf_read_def)
  have "fst ?r = Inr ?n
      \<and> take ?n (snd (snd ?r))
          = (if framing_flag (ipc_ch_descr st ! dev) then be32_bytes S else [])
            @ take (unat S) (chan_pool (ipc_ch_descr st ! dev) ! pbuff)"
    if pop: "get_next_pending_buff (ipc_ch_descr st ! dev) = (Some (pbuff, S), ch')"
      and fit: "unat S \<le> length (chan_pool (ipc_ch_descr st ! dev) ! pbuff)"
      and room: "?n \<le> length buffer"
  proof -
    have r: "fst ?r = Inr ?n" by (rule ipcf_read_room [OF pop fit room])
    then have "?r = (Inr ?n, fst (snd ?r), snd (snd ?r))" by (simp add: prod_eq_iff)
    from ipcf_read_ok(2) [OF pop this] r show ?thesis by simp
  qed
  moreover have "fst ?r = Inl EFAULT
      \<and> ipc_ch_descr (fst (snd ?r)) = (ipc_ch_descr st)[dev := ch']"
    if pop: "get_next_pending_buff (ipc_ch_descr st ! dev) = (Some (pbuff, S), ch')"
      and fit: "unat S \<le> length (chan_pool (ipc_ch_descr st ! dev) ! pbuff)"
      and nr: "length buffer < ?n"
    using ipcf_read_no_room [OF pop fit nr] by simp
  ultimately show ?thesis using e by blast
qed

theorem read_ignores_length_witness:
  "fst (get_next_pending_buff (ipc_ch_descr framed_msg_state ! 1)) = Some (0, 3)
   \<and> unat (3 :: 32 word) \<le> length (chan_pool (ipc_ch_descr framed_msg_state ! 1) ! 0)
   \<and> (if framing_flag (ipc_ch_descr framed_msg_state ! 1) then 4 else 0) + unat (3 :: 32 word)
       \<le> length (replicate 16 (0 :: byte))
   \<and> ipcf_read framed_msg_state 1 (replicate 16 0) 2 = ipcf_read framed_msg_state 1 (replicate 16 0) 4096
   \<and> fst (ipcf_read framed_msg_state 1 (replicate 16 0) 2) = Inr 7
   \<and> length [0xEE :: byte, 0xEE]
       < (if framing_flag (ipc_ch_descr framed_msg_state ! 1) then 4 else 0) + unat (3 :: 32 word)
   \<and> fst (ipcf_read framed_msg_state 1 [0xEE, 0xEE] 2) = Inl EFAULT"
proof -
  let ?d1 = "ipc_ch_descr framed_msg_state ! 1"
  note F1 = rx_loaded_facts [of "[1, 2, 3]" 1, simplified, folded framed_msg_state_def]
  have fl1: "framing_flag ?d1"
    by (simp add: framing_flag_def inst_descr_def F1)
  have p1: "get_next_pending_buff ?d1 = (Some (0, 3), snd (get_next_pending_buff ?d1))"
    using F1(1) by (simp add: prod_eq_iff)
  have f1: "unat (3 :: 32 word) \<le> length (chan_pool ?d1 ! 0)" by (simp add: F1)
  have r1: "(if framing_flag ?d1 then 4 else 0) + unat (3 :: 32 word) \<le> length (replicate 16 (0 :: byte))"
    by simp
  have n1: "length [0xEE :: byte, 0xEE] < (if framing_flag ?d1 then 4 else 0) + unat (3 :: 32 word)"
    using fl1 by simp
  note R = read_ignores_length [where st = framed_msg_state and dev = 1
      and buffer = "replicate 16 0" and len = 2 and len' = 4096 and pbuff = 0 and S = 3
      and ch' = "snd (get_next_pending_buff ?d1)"]
  note N = read_ignores_length [where st = framed_msg_state and dev = 1
      and buffer = "[0xEE, 0xEE]" and len = 2 and len' = 2 and pbuff = 0 and S = 3
      and ch' = "snd (get_next_pending_buff ?d1)"]
  from R have e: "ipcf_read framed_msg_state 1 (replicate 16 0) 2
      = ipcf_read framed_msg_state 1 (replicate 16 0) 4096"
    by blast
  from R p1 f1 r1 have "fst (ipcf_read framed_msg_state 1 (replicate 16 0) 2)
      = Inr ((if framing_flag ?d1 then 4 else 0) + unat (3 :: 32 word))"
    by blast
  then have c: "fst (ipcf_read framed_msg_state 1 (replicate 16 0) 2) = Inr 7"
    using fl1 by simp
  from N p1 f1 n1 have x: "fst (ipcf_read framed_msg_state 1 [0xEE, 0xEE] 2) = Inl EFAULT"
    by blast
  have q: "fst (get_next_pending_buff ?d1) = Some (0, 3)" using F1(1) by simp
  from q f1 r1 e c n1 x show ?thesis by blast
qed

text \<open>
  The claim as it is worded, that a pending message larger than \<^verbatim>\<open>length\<close> is still delivered
  in full, fails when the user memory is as short as \<^verbatim>\<open>length\<close> says. On the loaded module
  with one message of 3 bytes pending on the framed channel, a read with \<^verbatim>\<open>length = 2\<close> into two
  bytes of user memory returns \<^verbatim>\<open>-EFAULT\<close>, and afterwards no message is pending.
\<close>

theorem short_buffer_counterexample:
  "fst (get_next_pending_buff (ipc_ch_descr framed_msg_state ! 1)) = Some (0, 3)
   \<and> num_pending_msg (ipc_ch_descr framed_msg_state ! 1) = 1
   \<and> fst (ipcf_read framed_msg_state 1 [0xEE, 0xEE] 2) = Inl EFAULT
   \<and> num_pending_msg
        (ipc_ch_descr (fst (snd (ipcf_read framed_msg_state 1 [0xEE, 0xEE] 2))) ! 1) = 0"
proof -
  let ?d1 = "ipc_ch_descr framed_msg_state ! 1"
  note F1 = rx_loaded_facts [of "[1, 2, 3]" 1, simplified, folded framed_msg_state_def]
  have fl1: "framing_flag ?d1"
    by (simp add: framing_flag_def inst_descr_def F1)
  have q: "fst (get_next_pending_buff ?d1) = Some (0, 3)" using F1(1) by simp
  then have p1: "get_next_pending_buff ?d1 = (Some (0, 3), snd (get_next_pending_buff ?d1))"
    by (simp add: prod_eq_iff)
  have f1: "unat (3 :: 32 word) \<le> length (chan_pool ?d1 ! 0)" by (simp add: F1)
  have n1: "length [0xEE :: byte, 0xEE] < (if framing_flag ?d1 then 4 else 0) + unat (3 :: 32 word)"
    using fl1 by simp
  note N = ipcf_read_no_room [OF p1 f1 n1, of 2]
  have "ipc_ch_descr (fst (snd (ipcf_read framed_msg_state 1 [0xEE, 0xEE] 2))) ! 1
      = snd (get_next_pending_buff ?d1)"
    using N(2) framed_popped(3) by simp
  then have "num_pending_msg
        (ipc_ch_descr (fst (snd (ipcf_read framed_msg_state 1 [0xEE, 0xEE] 2))) ! 1) = 0"
    using framed_popped(2) by simp
  with q framed_popped(1) N(1) show ?thesis by blast
qed

subsection \<open>Writing\<close>

text \<open>
  Claim C9. \<^verbatim>\<open>ipcf_write\<close> called with length \<open>len\<close> on user memory \<open>buffer\<close>. When
  \<^verbatim>\<open>ipc_shm_acquire_buf\<close> gives no buffer, it returns \<^verbatim>\<open>-ENOMEM\<close> and \<^verbatim>\<open>ipc_shm_tx\<close> is not
  called. When a buffer is acquired and the first \<open>min len IPCF_BUF_LEN\<close> bytes of the user
  memory can be read, exactly these bytes are handed to \<^verbatim>\<open>ipc_shm_tx\<close>, whatever \<open>len\<close> is: a
  payload longer than \<^verbatim>\<open>IPCF_BUF_LEN\<close> is cut to \<^verbatim>\<open>IPCF_BUF_LEN\<close> bytes and sent, not refused. If
  \<^verbatim>\<open>ipc_shm_tx\<close> then returns 0 the call returns \<open>min len IPCF_BUF_LEN\<close> and has logged nothing;
  if it returns an error the call returns that error. When the user memory cannot be read the
  call returns \<^verbatim>\<open>-EFAULT\<close> and nothing is sent. Conversely, every call that returns a count
  returns \<open>min len IPCF_BUF_LEN\<close> and has sent that many bytes.
\<close>

theorem write_result:
  "(\<not> acquired \<longrightarrow>
      fst (ipcf_write st dev buffer len acquired err) = Inl ENOMEM
      \<and> tx_calls (snd (ipcf_write st dev buffer len acquired err)) = tx_calls st)
   \<and> (acquired \<and> min len IPCF_BUF_LEN \<le> length buffer \<longrightarrow>
      tx_calls (snd (ipcf_write st dev buffer len acquired err))
        = tx_calls st @ [(instance_id (ipc_ch_descr st ! dev), channel_id (ipc_ch_descr st ! dev),
                          take (min len IPCF_BUF_LEN) buffer)]
      \<and> length (take (min len IPCF_BUF_LEN) buffer) = min len IPCF_BUF_LEN
      \<and> (err = 0 \<longrightarrow>
            fst (ipcf_write st dev buffer len acquired err) = Inr (min len IPCF_BUF_LEN)
            \<and> printk_log (snd (ipcf_write st dev buffer len acquired err)) = printk_log st)
      \<and> (err \<noteq> 0 \<longrightarrow>
            fst (ipcf_write st dev buffer len acquired err) = Inl (TX_ERROR err)))
   \<and> (acquired \<and> length buffer < min len IPCF_BUF_LEN \<longrightarrow>
      fst (ipcf_write st dev buffer len acquired err) = Inl EFAULT
      \<and> tx_calls (snd (ipcf_write st dev buffer len acquired err)) = tx_calls st)
   \<and> (fst (ipcf_write st dev buffer len acquired err) = Inr n \<longrightarrow>
      n = min len IPCF_BUF_LEN
      \<and> tx_calls (snd (ipcf_write st dev buffer len acquired err))
          = tx_calls st @ [(instance_id (ipc_ch_descr st ! dev), channel_id (ipc_ch_descr st ! dev),
                            take n buffer)]
      \<and> length (take n buffer) = n
      \<and> printk_log (snd (ipcf_write st dev buffer len acquired err)) = printk_log st)"
  by (auto simp: ipcf_write_def Let_def copy_from_user_def min_def split: if_splits option.splits)

theorem write_result_witness:
  "fst (ipcf_write loaded_state 0 (replicate 200 0x61) 200 False 0) = Inl ENOMEM
   \<and> tx_calls (snd (ipcf_write loaded_state 0 (replicate 200 0x61) 200 False 0))
       = tx_calls loaded_state
   \<and> min 200 IPCF_BUF_LEN \<le> length (replicate 200 (0x61 :: byte))
   \<and> fst (ipcf_write loaded_state 0 (replicate 200 0x61) 200 True 0) = Inr 128
   \<and> tx_calls (snd (ipcf_write loaded_state 0 (replicate 200 0x61) 200 True 0))
       = tx_calls loaded_state @ [(0, 0, replicate 128 0x61)]
   \<and> fst (ipcf_write loaded_state 0 (replicate 200 0x61) 200 True (- 5)) = Inl (TX_ERROR (- 5))
   \<and> length (replicate 100 (0x61 :: byte)) < min 200 IPCF_BUF_LEN
   \<and> fst (ipcf_write loaded_state 0 (replicate 100 0x61) 200 True 0) = Inl EFAULT"
proof -
  have h: "min 200 IPCF_BUF_LEN \<le> length (replicate 200 (0x61 :: byte))"
    by (simp add: IPCF_BUF_LEN_def)
  have g: "length (replicate 100 (0x61 :: byte)) < min 200 IPCF_BUF_LEN"
    by (simp add: IPCF_BUF_LEN_def)
  note A = write_result [of False loaded_state 0 "replicate 200 0x61" 200 0 0]
  note B = write_result [of True loaded_state 0 "replicate 200 0x61" 200 0 128]
  note C = write_result [of True loaded_state 0 "replicate 200 0x61" 200 "- 5" 0]
  note D = write_result [of True loaded_state 0 "replicate 100 0x61" 200 0 0]
  from A have a: "fst (ipcf_write loaded_state 0 (replicate 200 0x61) 200 False 0) = Inl ENOMEM"
    "tx_calls (snd (ipcf_write loaded_state 0 (replicate 200 0x61) 200 False 0))
       = tx_calls loaded_state"
    by blast+
  from B h have b: "fst (ipcf_write loaded_state 0 (replicate 200 0x61) 200 True 0) = Inr 128"
    "tx_calls (snd (ipcf_write loaded_state 0 (replicate 200 0x61) 200 True 0))
       = tx_calls loaded_state @ [(0, 0, replicate 128 0x61)]"
    by (simp_all add: loaded_ids IPCF_BUF_LEN_def)
  from C h have c: "fst (ipcf_write loaded_state 0 (replicate 200 0x61) 200 True (- 5))
      = Inl (TX_ERROR (- 5))"
    by simp
  from D g have d: "fst (ipcf_write loaded_state 0 (replicate 100 0x61) 200 True 0) = Inl EFAULT"
    by blast
  from a b c d h g show ?thesis by blast
qed

end
